theory Spec2Isabelle
  imports Main "HOL-Library.Product_Lexorder"
begin

unbundle bit_operations_syntax

section \<open>Python values and errors\<close>

text \<open>
  Every exception the modelled code can raise is a value of \<open>error\<close>; a function that
  can raise returns \<open>error + 'a\<close> with \<open>Inl\<close> for the exception. A function that
  contains a \<open>while\<close> loop returns an \<open>option\<close> around that: \<open>None\<close> is the loop that
  never ends.
\<close>

datatype error =
    ValueError string
  | IndexError
  | KeyError
  | AttributeError
  | ZeroDivisionError

text \<open>\<open>xs.index(x)\<close> of a tuple: the first position of \<open>x\<close>, ValueError when absent.\<close>

fun index_from :: "'a list \<Rightarrow> 'a \<Rightarrow> int \<Rightarrow> error + int" where
  "index_from [] x i = Inl (ValueError ''tuple.index(x): x not in tuple'')"
| "index_from (y # ys) x i = (if y = x then Inr i else index_from ys x (i + 1))"

definition tuple_index :: "'a list \<Rightarrow> 'a \<Rightarrow> error + int" where
  "tuple_index xs x = index_from xs x 0"

text \<open>\<open>xs[i]\<close> of a tuple; a position below 0 is taken from the end of the tuple.\<close>

definition tuple_get :: "'a list \<Rightarrow> int \<Rightarrow> error + 'a" where
  "tuple_get xs i =
    (if 0 \<le> i \<and> i < int (length xs) then Inr (xs ! nat i)
     else if i < 0 \<and> - int (length xs) \<le> i then Inr (xs ! nat (int (length xs) + i))
     else Inl IndexError)"

text \<open>
  \<open>max(xs, key=f)\<close>: the first element whose key is maximal, ValueError on an empty
  sequence.
\<close>

definition py_max :: "('a \<Rightarrow> nat) \<Rightarrow> 'a list \<Rightarrow> error + 'a" where
  "py_max key xs =
    (case xs of
       [] \<Rightarrow> Inl (ValueError ''max() arg is an empty sequence'')
     | x # rest \<Rightarrow> Inr (fold (\<lambda>y best. if key best < key y then y else best) rest x))"

text \<open>\<open>itertools.product([0, 1], repeat=k)\<close>: the first component varies slowest.\<close>

fun product_bits :: "nat \<Rightarrow> int list list" where
  "product_bits 0 = [[]]"
| "product_bits (Suc k) = [b # bits. b \<leftarrow> [0, 1], bits \<leftarrow> product_bits k]"

text \<open>\<open>str(n)\<close> of an integer and of a list of integers.\<close>

function str_nat :: "nat \<Rightarrow> string" where
  "str_nat n =
    (if n < 10 then [''0123456789'' ! n]
     else str_nat (n div 10) @ [''0123456789'' ! (n mod 10)])"
  by pat_completeness auto
termination
  by (relation "measure id") auto

definition str_int :: "int \<Rightarrow> string" where
  "str_int i = (if i < 0 then ''-'' @ str_nat (nat (- i)) else str_nat (nat i))"

fun join_comma :: "string list \<Rightarrow> string" where
  "join_comma [] = []"
| "join_comma [s] = s"
| "join_comma (s # t # rest) = s @ '', '' @ join_comma (t # rest)"

definition str_int_list :: "int list \<Rightarrow> string" where
  "str_int_list xs = ''['' @ join_comma (map str_int xs) @ '']''"

section \<open>kmap\_engine: coordinates\<close>

text \<open>Gray-code ordering for two-bit combinations.\<close>

definition GRAY4 :: "(int \<times> int) list" where
  "GRAY4 = [(0, 0), (0, 1), (1, 1), (1, 0)]"

type_synonym cell = "int \<times> int"

record GroupRect =
  r0 :: int
  rows :: int
  c0 :: int
  cols :: int
  cells :: "cell set"

definition map_dimensions :: "int \<Rightarrow> error + (int \<times> int)" where
  "map_dimensions nvars =
    (if nvars = 2 then Inr (2, 2)
     else if nvars = 3 then Inr (2, 4)
     else if nvars = 4 then Inr (4, 4)
     else Inl (ValueError ''K-map available for 2-4 variables.''))"

text \<open>
  \<open>idx >> k\<close> on a Python integer is \<open>drop_bit k idx\<close>, \<open>&\<close> is \<open>AND\<close>, both on
  unbounded two's-complement integers.
\<close>

definition idx_to_rc :: "int \<Rightarrow> int \<Rightarrow> bool \<Rightarrow> error + cell" where
  "idx_to_rc nvars idx orient_cols_is_ab =
    (if nvars = 2 then
       (let a = drop_bit 1 idx AND 1; b = idx AND 1
        in Inr (if \<not> orient_cols_is_ab then (a, b) else (b, a)))
     else if nvars = 3 then
       (let a = drop_bit 2 idx AND 1; b = drop_bit 1 idx AND 1; c = idx AND 1
        in case tuple_index GRAY4 (b, c) of
             Inl e \<Rightarrow> Inl e
           | Inr col \<Rightarrow> Inr (a, col))
     else if nvars = 4 then
       (let a = drop_bit 3 idx AND 1; b = drop_bit 2 idx AND 1;
            c = drop_bit 1 idx AND 1; d = idx AND 1
        in if orient_cols_is_ab then
             (case tuple_index GRAY4 (a, b) of
                Inl e \<Rightarrow> Inl e
              | Inr col \<Rightarrow>
                  (case tuple_index GRAY4 (c, d) of
                     Inl e \<Rightarrow> Inl e
                   | Inr row \<Rightarrow> Inr (row, col)))
           else
             (case tuple_index GRAY4 (c, d) of
                Inl e \<Rightarrow> Inl e
              | Inr col \<Rightarrow>
                  (case tuple_index GRAY4 (a, b) of
                     Inl e \<Rightarrow> Inl e
                   | Inr row \<Rightarrow> Inr (row, col))))
     else Inl (ValueError ''K-map available for 2-4 variables.''))"

definition rc_to_bits_4 :: "int \<Rightarrow> int \<Rightarrow> bool \<Rightarrow> error + (int \<times> int \<times> int \<times> int)" where
  "rc_to_bits_4 r c orient_cols_is_ab =
    (if orient_cols_is_ab then
       (case tuple_get GRAY4 c of
          Inl e \<Rightarrow> Inl e
        | Inr (a, b) \<Rightarrow>
            (case tuple_get GRAY4 r of
               Inl e \<Rightarrow> Inl e
             | Inr (c_bit, d) \<Rightarrow> Inr (a, b, c_bit, d)))
     else
       (case tuple_get GRAY4 c of
          Inl e \<Rightarrow> Inl e
        | Inr (c_bit, d) \<Rightarrow>
            (case tuple_get GRAY4 r of
               Inl e \<Rightarrow> Inl e
             | Inr (a, b) \<Rightarrow> Inr (a, b, c_bit, d))))"

text \<open>
  The set comprehension \<open>{idx_to_rc(nvars, m, orient) for m in minterms}\<close>; the first
  index that raises ends it.
\<close>

fun map_minterms_to_cells :: "int \<Rightarrow> int list \<Rightarrow> bool \<Rightarrow> error + cell set" where
  "map_minterms_to_cells nvars [] orient_cols_is_ab = Inr {}"
| "map_minterms_to_cells nvars (m # rest) orient_cols_is_ab =
    (case idx_to_rc nvars m orient_cols_is_ab of
       Inl e \<Rightarrow> Inl e
     | Inr rc \<Rightarrow>
         (case map_minterms_to_cells nvars rest orient_cols_is_ab of
            Inl e \<Rightarrow> Inl e
          | Inr cs \<Rightarrow> Inr (insert rc cs)))"

section \<open>kmap\_engine: rectangle geometry\<close>

text \<open>
  The two nested \<open>for\<close> loops over \<open>range(rows)\<close> and \<open>range(cols)\<close>. The first
  \<open>%\<close> that runs raises ZeroDivisionError when its divisor is 0; no \<open>%\<close> runs when
  one of the ranges is empty.
\<close>

definition rect_cells :: "int \<Rightarrow> int \<Rightarrow> int \<Rightarrow> int \<Rightarrow> int \<Rightarrow> int \<Rightarrow> error + cell set" where
  "rect_cells r0' rows' c0' cols' nrows ncols =
    (if 0 < rows' \<and> 0 < cols' \<and> (nrows = 0 \<or> ncols = 0) then Inl ZeroDivisionError
     else Inr (set [((r0' + dr) mod nrows, (c0' + dc) mod ncols).
                      dr \<leftarrow> [0 .. rows' - 1], dc \<leftarrow> [0 .. cols' - 1]]))"

text \<open>
  \<open>_power_sizes\<close>: the loop state is the list \<open>sizes\<close>, which starts as \<open>[1]\<close>;
  \<open>sizes[-1]\<close> of an empty list would raise IndexError.
\<close>

partial_function (option) power_sizes_loop :: "int list \<Rightarrow> int \<Rightarrow> (error + int list) option" where
  "power_sizes_loop sizes limit =
    (if sizes = [] then Some (Inl IndexError)
     else if last sizes * 2 \<le> limit then power_sizes_loop (sizes @ [last sizes * 2]) limit
     else Some (Inr sizes))"

declare power_sizes_loop.simps [code]

definition power_sizes :: "int \<Rightarrow> (error + int list) option" where
  "power_sizes limit = power_sizes_loop [1] limit"

text \<open>
  \<open>rects.sort(key=area, reverse=True)\<close> is a stable sort into non-increasing area:
  placements of equal area keep the order in which the loops appended them. That is the
  stable \<open>sort_key\<close> on the negated area.
\<close>

definition all_rects :: "int \<Rightarrow> int \<Rightarrow> (error + (int \<times> int \<times> int \<times> int) list) option" where
  "all_rects nrows ncols =
    (case power_sizes nrows of
       None \<Rightarrow> None
     | Some (Inl e) \<Rightarrow> Some (Inl e)
     | Some (Inr sizes_r) \<Rightarrow>
         (case power_sizes ncols of
            None \<Rightarrow> None
          | Some (Inl e) \<Rightarrow> Some (Inl e)
          | Some (Inr sizes_c) \<Rightarrow>
              Some (Inr (sort_key (\<lambda>(r0', rows', c0', cols'). - (rows' * cols'))
                [(r0', rows', c0', cols').
                   rows' \<leftarrow> rev sizes_r, cols' \<leftarrow> rev sizes_c,
                   r0' \<leftarrow> [0 .. nrows - 1], c0' \<leftarrow> [0 .. ncols - 1]]))))"

section \<open>kmap\_engine: the grouping selector\<close>

text \<open>The first loop of \<open>select_group_rectangles\<close>: the candidates, in the order of \<open>rects\<close>.\<close>

fun candidates_of :: "(int \<times> int \<times> int \<times> int) list \<Rightarrow> int \<Rightarrow> int \<Rightarrow> cell set \<Rightarrow> error + GroupRect list" where
  "candidates_of [] nrows ncols ones_cells = Inr []"
| "candidates_of ((r0', rows', c0', cols') # rest) nrows ncols ones_cells =
    (case rect_cells r0' rows' c0' cols' nrows ncols of
       Inl e \<Rightarrow> Inl e
     | Inr full_cells \<Rightarrow>
         (case candidates_of rest nrows ncols ones_cells of
            Inl e \<Rightarrow> Inl e
          | Inr candidates \<Rightarrow>
              Inr (if full_cells \<noteq> {} \<and> full_cells \<subseteq> ones_cells
                   then \<lparr>r0 = r0', rows = rows', c0 = c0', cols = cols', cells = full_cells\<rparr> # candidates
                   else candidates)))"

text \<open>
  The order in which Python iterates over a set is fixed by the hash table, not by the
  language, so it is a parameter \<open>iter\<close> of the model: \<open>iter S\<close> lists \<open>S\<close>.
  \<open>set_iteration iter\<close> says that it lists every finite set, each element once.
\<close>

definition set_iteration :: "('a set \<Rightarrow> 'a list) \<Rightarrow> bool" where
  "set_iteration iter = (\<forall>S. finite S \<longrightarrow> set (iter S) = S \<and> distinct (iter S))"

text \<open>One pass of the \<open>for cell in ones_cells - covered_all\<close> loop.\<close>

definition essentials_of :: "(cell set \<Rightarrow> cell list) \<Rightarrow> GroupRect list \<Rightarrow> cell set \<Rightarrow> cell set \<Rightarrow> GroupRect list" where
  "essentials_of iter candidates ones_cells covered_all =
    concat (map (\<lambda>cell.
                   let containing = filter (\<lambda>g. cell \<in> cells g) candidates
                   in if length containing = 1 then [containing ! 0] else [])
                (iter (ones_cells - covered_all)))"

text \<open>The \<open>for group in essentials\<close> loop, on the state \<open>(chosen, covered_all)\<close>.\<close>

fun add_essentials :: "GroupRect list \<Rightarrow> GroupRect list \<times> cell set \<Rightarrow> GroupRect list \<times> cell set" where
  "add_essentials [] st = st"
| "add_essentials (grp # rest) (chosen, covered_all) =
    (if grp \<notin> set chosen
     then add_essentials rest (chosen @ [grp], covered_all \<union> cells grp)
     else add_essentials rest (chosen, covered_all))"

partial_function (option) essential_loop ::
  "(cell set \<Rightarrow> cell list) \<Rightarrow> GroupRect list \<Rightarrow> cell set \<Rightarrow> GroupRect list \<Rightarrow> cell set
     \<Rightarrow> (GroupRect list \<times> cell set) option" where
  "essential_loop iter candidates ones_cells chosen covered_all =
    (if essentials_of iter candidates ones_cells covered_all = [] then Some (chosen, covered_all)
     else essential_loop iter candidates ones_cells
            (fst (add_essentials (essentials_of iter candidates ones_cells covered_all) (chosen, covered_all)))
            (snd (add_essentials (essentials_of iter candidates ones_cells covered_all) (chosen, covered_all))))"

declare essential_loop.simps [code]

partial_function (option) greedy_loop ::
  "GroupRect list \<Rightarrow> cell set \<Rightarrow> GroupRect list \<Rightarrow> cell set \<Rightarrow> cell set
     \<Rightarrow> (error + GroupRect list) option" where
  "greedy_loop candidates ones_cells chosen covered_all remaining =
    (if remaining = {} then Some (Inr chosen)
     else case py_max (\<lambda>g. card (cells g \<inter> remaining)) candidates of
            Inl e \<Rightarrow> Some (Inl e)
          | Inr best \<Rightarrow>
              if cells best \<inter> remaining = {} then Some (Inr chosen)
              else greedy_loop candidates ones_cells (chosen @ [best])
                     (covered_all \<union> cells best)
                     (ones_cells - (covered_all \<union> cells best)))"

declare greedy_loop.simps [code]

definition select_group_rectangles ::
  "(cell set \<Rightarrow> cell list) \<Rightarrow> int \<Rightarrow> int \<Rightarrow> cell set \<Rightarrow> (error + GroupRect list) option" where
  "select_group_rectangles iter nrows ncols ones_cells =
    (if ones_cells = {} then Some (Inr [])
     else case all_rects nrows ncols of
            None \<Rightarrow> None
          | Some (Inl e) \<Rightarrow> Some (Inl e)
          | Some (Inr rects) \<Rightarrow>
              (case candidates_of rects nrows ncols ones_cells of
                 Inl e \<Rightarrow> Some (Inl e)
               | Inr candidates \<Rightarrow>
                   (case essential_loop iter candidates ones_cells [] {} of
                      None \<Rightarrow> None
                    | Some (chosen, covered_all) \<Rightarrow>
                        greedy_loop candidates ones_cells chosen covered_all
                          (ones_cells - covered_all))))"

text \<open>
  \<open>label_rect_4\<close>: the loop over \<open>group.cells\<close> only adds to the four sets of
  \<open>values\<close>, so the order of the iteration does not show; it raises IndexError as soon
  as one cell is outside \<open>GRAY4\<close>. \<open>f"{var}'"\<close> appends an apostrophe (character
  0x27).
\<close>

definition label_rect_4 :: "GroupRect \<Rightarrow> bool \<Rightarrow> error + string" where
  "label_rect_4 grp orient_cols_is_ab =
    (if \<exists>(r, c) \<in> cells grp. isl (rc_to_bits_4 r c orient_cols_is_ab) then Inl IndexError
     else
       (let bits = (\<lambda>(r, c). projr (rc_to_bits_4 r c orient_cols_is_ab)) ` cells grp;
            values = [(''A'', (\<lambda>(a, b, c_bit, d). a) ` bits),
                      (''B'', (\<lambda>(a, b, c_bit, d). b) ` bits),
                      (''C'', (\<lambda>(a, b, c_bit, d). c_bit) ` bits),
                      (''D'', (\<lambda>(a, b, c_bit, d). d) ` bits)];
            pieces = concat (map (\<lambda>(var, bs).
                                    if bs = {0} then [var @ [CHR 0x27]]
                                    else if bs = {1} then [var]
                                    else []) values)
        in Inr (if pieces \<noteq> [] then concat pieces else ''1'')))"

section \<open>kmap\_engine: from an expression to groups\<close>

text \<open>
  \<open>_contiguous_span\<close>: the first \<open>start\<close> in \<open>range(size)\<close> whose run of
  \<open>len(unique)\<close> positions, taken modulo \<open>size\<close>, is the set itself.
\<close>

definition contiguous_span :: "int set \<Rightarrow> int \<Rightarrow> error + (int \<times> int)" where
  "contiguous_span coords size' =
    (let unique = coords; length' = int (card unique)
     in case find (\<lambda>start. set [(start + offset) mod size'. offset \<leftarrow> [0 .. length' - 1]] = unique)
                  [0 .. size' - 1] of
          Some start \<Rightarrow> Inr (start, length')
        | None \<Rightarrow> Inl (ValueError ''Cells do not form a contiguous span on the map.''))"

text \<open>
  The expressions the code handles: the Python constants \<open>True\<close>, \<open>False\<close> and
  \<open>None\<close>, and SymPy's Boolean terms. SymPy compares symbols by name. SymPy's
  constructors put the arguments of \<open>And\<close> and \<open>Or\<close> in a canonical order and drop
  repeated ones; the functions below look at the arguments as a collection, never at
  their order.
\<close>

type_synonym symbol = string

datatype expr =
    PyBool bool
  | PyNone
  | STrue
  | SFalse
  | Symbol symbol
  | SNot expr
  | SAnd "expr list"
  | SOr "expr list"

text \<open>The loop over \<open>factors\<close> that fills the dictionary \<open>fixed\<close>.\<close>

fun fixed_of :: "expr list \<Rightarrow> (symbol \<rightharpoonup> int) \<Rightarrow> error + (symbol \<rightharpoonup> int)" where
  "fixed_of [] fixed = Inr fixed"
| "fixed_of (factor # rest) fixed =
    (case factor of
       Symbol s \<Rightarrow> fixed_of rest (fixed(s \<mapsto> 1))
     | SNot (Symbol s) \<Rightarrow> fixed_of rest (fixed(s \<mapsto> 0))
     | _ \<Rightarrow> Inl (ValueError ''Unsupported factor within implicant.''))"

text \<open>The loop \<open>idx = (idx << 1) | assignment[var]\<close> over \<open>vars_tuple\<close>.\<close>

fun index_of_assignment :: "(symbol \<rightharpoonup> int) \<Rightarrow> symbol list \<Rightarrow> int \<Rightarrow> error + int" where
  "index_of_assignment assignment [] idx = Inr idx"
| "index_of_assignment assignment (var # rest) idx =
    (case assignment var of
       None \<Rightarrow> Inl KeyError
     | Some bit' \<Rightarrow> index_of_assignment assignment rest (push_bit 1 idx OR bit'))"

text \<open>
  The loop over \<open>itertools.product([0, 1], repeat=len(free_vars))\<close>;
  \<open>assignment.update(dict(zip(free_vars, bits)))\<close> stores the pairs in order.
\<close>

fun minterms_of_bits ::
  "int list list \<Rightarrow> (symbol \<rightharpoonup> int) \<Rightarrow> symbol list \<Rightarrow> symbol list \<Rightarrow> error + int list" where
  "minterms_of_bits [] fixed free_vars vars_tuple = Inr []"
| "minterms_of_bits (bits # rest) fixed free_vars vars_tuple =
    (let assignment = fold (\<lambda>(var, bit') m. m(var \<mapsto> bit')) (zip free_vars bits) fixed
     in case index_of_assignment assignment vars_tuple 0 of
          Inl e \<Rightarrow> Inl e
        | Inr idx \<Rightarrow>
            (case minterms_of_bits rest fixed free_vars vars_tuple of
               Inl e \<Rightarrow> Inl e
             | Inr mins \<Rightarrow> Inr (idx # mins)))"

definition term_to_minterms :: "expr \<Rightarrow> symbol list \<Rightarrow> error + int list" where
  "term_to_minterms trm vars_tuple =
    (let factors = (case trm of SAnd args \<Rightarrow> args | _ \<Rightarrow> [trm])
     in case fixed_of factors Map.empty of
          Inl e \<Rightarrow> Inl e
        | Inr fixed \<Rightarrow>
            (let free_vars = filter (\<lambda>v. fixed v = None) vars_tuple
             in minterms_of_bits (product_bits (length free_vars)) fixed free_vars vars_tuple))"

text \<open>The body of the loop over \<open>terms\<close>: one group for one term.\<close>

definition group_of_term ::
  "expr \<Rightarrow> symbol list \<Rightarrow> bool \<Rightarrow> int \<Rightarrow> int \<Rightarrow> int \<Rightarrow> error + GroupRect" where
  "group_of_term trm vars_tuple orient_cols_is_ab nvars nrows ncols =
    (case term_to_minterms trm vars_tuple of
       Inl e \<Rightarrow> Inl e
     | Inr mins \<Rightarrow>
         (case map_minterms_to_cells nvars mins orient_cols_is_ab of
            Inl e \<Rightarrow> Inl e
          | Inr cells' \<Rightarrow>
              (case contiguous_span (fst ` cells') nrows of
                 Inl e \<Rightarrow> Inl e
               | Inr (r0', rows_len) \<Rightarrow>
                   (case contiguous_span (snd ` cells') ncols of
                      Inl e \<Rightarrow> Inl e
                    | Inr (c0', cols_len) \<Rightarrow>
                        Inr \<lparr>r0 = r0', rows = rows_len, c0 = c0', cols = cols_len,
                             cells = cells'\<rparr>))))"

fun groups_of_terms ::
  "expr list \<Rightarrow> symbol list \<Rightarrow> bool \<Rightarrow> int \<Rightarrow> int \<Rightarrow> int \<Rightarrow> error + GroupRect list" where
  "groups_of_terms [] vars_tuple orient_cols_is_ab nvars nrows ncols = Inr []"
| "groups_of_terms (trm # rest) vars_tuple orient_cols_is_ab nvars nrows ncols =
    (case group_of_term trm vars_tuple orient_cols_is_ab nvars nrows ncols of
       Inl e \<Rightarrow> Inl e
     | Inr g \<Rightarrow>
         (case groups_of_terms rest vars_tuple orient_cols_is_ab nvars nrows ncols of
            Inl e \<Rightarrow> Inl e
          | Inr gs \<Rightarrow> Inr (g # gs)))"

text \<open>
  \<open>expr in (False, None)\<close> compares with \<open>==\<close>: it holds of Python's \<open>False\<close> and
  \<open>None\<close> and of SymPy's \<open>false\<close>, which equals \<open>False\<close>. \<open>expr is True\<close> holds of
  Python's \<open>True\<close> only.
\<close>

definition expression_to_groups :: "expr \<Rightarrow> symbol list \<Rightarrow> bool \<Rightarrow> error + GroupRect list" where
  "expression_to_groups expr vars_tuple orient_cols_is_ab =
    (if expr = PyBool False \<or> expr = PyNone \<or> expr = SFalse then Inr []
     else
       (let nvars = int (length vars_tuple)
        in case map_dimensions nvars of
             Inl e \<Rightarrow> Inl e
           | Inr (nrows, ncols) \<Rightarrow>
               if expr = PyBool True then
                 (case map_minterms_to_cells nvars [0 .. 2 ^ nat nvars - 1] orient_cols_is_ab of
                    Inl e \<Rightarrow> Inl e
                  | Inr cells' \<Rightarrow>
                      Inr [\<lparr>r0 = 0, rows = nrows, c0 = 0, cols = ncols, cells = cells'\<rparr>])
               else
                 (let terms = (case expr of SOr args \<Rightarrow> args | _ \<Rightarrow> [expr])
                  in groups_of_terms terms vars_tuple orient_cols_is_ab nvars nrows ncols)))"

section \<open>logic: minterms and expressions\<close>

text \<open>
  \<open>bool(expr.xreplace(subs))\<close>. Python's \<open>False\<close>, \<open>True\<close> and \<open>None\<close> have no
  method \<open>xreplace\<close>: AttributeError. On a SymPy term, \<open>xreplace\<close> puts the truth
  values in place of the symbols and SymPy's constructors evaluate what they can:
  \<open>sympy_value\<close> is the constant that results, \<open>None\<close> when symbols are left over;
  \<open>bool\<close> of a term that is not SymPy's \<open>false\<close> is \<open>True\<close>.
\<close>

fun sympy_value :: "(symbol \<rightharpoonup> bool) \<Rightarrow> expr \<Rightarrow> bool option" where
  "sympy_value subs (PyBool b) = Some b"
| "sympy_value subs PyNone = None"
| "sympy_value subs STrue = Some True"
| "sympy_value subs SFalse = Some False"
| "sympy_value subs (Symbol s) = subs s"
| "sympy_value subs (SNot e) = map_option Not (sympy_value subs e)"
| "sympy_value subs (SAnd es) =
    (let vs = map (sympy_value subs) es
     in if Some False \<in> set vs then Some False
        else if \<forall>v \<in> set vs. v = Some True then Some True
        else None)"
| "sympy_value subs (SOr es) =
    (let vs = map (sympy_value subs) es
     in if Some True \<in> set vs then Some True
        else if \<forall>v \<in> set vs. v = Some False then Some False
        else None)"

definition xreplace_bool :: "expr \<Rightarrow> (symbol \<rightharpoonup> bool) \<Rightarrow> error + bool" where
  "xreplace_bool expr subs =
    (case expr of
       PyBool b \<Rightarrow> Inl AttributeError
     | PyNone \<Rightarrow> Inl AttributeError
     | _ \<Rightarrow> Inr (sympy_value subs expr \<noteq> Some False))"

text \<open>The loop of \<open>truth_minterms\<close> over the enumerated assignments.\<close>

fun truth_loop :: "expr \<Rightarrow> symbol list \<Rightarrow> (nat \<times> int list) list \<Rightarrow> error + int list" where
  "truth_loop expr vars_tuple [] = Inr []"
| "truth_loop expr vars_tuple ((idx, bits) # rest) =
    (let subs = fold (\<lambda>(var, bit') m. m(var \<mapsto> (bit' \<noteq> 0))) (zip vars_tuple bits) Map.empty
     in case xreplace_bool expr subs of
          Inl e \<Rightarrow> Inl e
        | Inr b \<Rightarrow>
            (case truth_loop expr vars_tuple rest of
               Inl e \<Rightarrow> Inl e
             | Inr mins \<Rightarrow> Inr (if b then int idx # mins else mins)))"

definition truth_minterms :: "expr \<Rightarrow> symbol list \<Rightarrow> error + int list" where
  "truth_minterms expr vars_tuple =
    truth_loop expr vars_tuple (enumerate 0 (product_bits (length vars_tuple)))"

text \<open>
  \<open>And(*literals)\<close> and \<open>Or(*clauses)\<close>: without arguments SymPy returns the neutral
  constant, with one argument the argument itself.
\<close>

definition sympy_And :: "expr list \<Rightarrow> expr" where
  "sympy_And args = (case args of [] \<Rightarrow> STrue | [x] \<Rightarrow> x | _ \<Rightarrow> SAnd args)"

definition sympy_Or :: "expr list \<Rightarrow> expr" where
  "sympy_Or args = (case args of [] \<Rightarrow> SFalse | [x] \<Rightarrow> x | _ \<Rightarrow> SOr args)"

definition minterms_to_expression :: "int list \<Rightarrow> symbol list \<Rightarrow> expr" where
  "minterms_to_expression minterms vars_tuple =
    (let mins = minterms
     in if mins = [] then PyBool False
        else
          (let n = length vars_tuple;
               clauses = map (\<lambda>value.
                 sympy_And (map (\<lambda>(idx, var).
                   let bit' = drop_bit (n - 1 - idx) value AND 1
                   in if bit' \<noteq> 0 then Symbol var else SNot (Symbol var))
                   (enumerate 0 vars_tuple))) mins
           in sympy_Or clauses))"

text \<open>
  \<open>1 << n\<close> raises ValueError for a negative \<open>n\<close>. The message of the range error ends
  with \<open>sorted(set(invalid))\<close>.
\<close>

definition validate_minterm_range :: "int list \<Rightarrow> int \<Rightarrow> error + unit" where
  "validate_minterm_range minterms n =
    (if n < 0 then Inl (ValueError ''negative shift count'')
     else
       (let max_valid = push_bit (nat n) 1 - 1;
            invalid = filter (\<lambda>m. m < 0 \<or> m > max_valid) minterms
        in if invalid \<noteq> [] then
             Inl (ValueError (''Minterms out of range for '' @ str_int n @ '' variables (0-''
                    @ str_int max_valid @ ''): ''
                    @ str_int_list (sorted_list_of_set (set invalid))))
           else Inr ()))"

section \<open>Invariants of the grouping selector\<close>

text \<open>
  Two predicates for the proofs about the loops of \<open>select_group_rectangles\<close>.
  \<open>fresh_cover\<close>: every chosen group covers a 1-cell that no group before it in
  the list covers. \<open>selector_inv\<close>: the chosen groups are candidates, \<open>covered_all\<close>
  is the union of their cells, and the list is a fresh cover.
\<close>

definition fresh_cover :: "cell set \<Rightarrow> GroupRect list \<Rightarrow> bool" where
  "fresh_cover ones chosen =
    (\<forall>i < length chosen. \<exists>x \<in> ones. x \<in> cells (chosen ! i) \<and> (\<forall>j < i. x \<notin> cells (chosen ! j)))"

definition selector_inv :: "GroupRect list \<Rightarrow> cell set \<Rightarrow> GroupRect list \<Rightarrow> cell set \<Rightarrow> bool" where
  "selector_inv cands ones chosen covered =
    (set chosen \<subseteq> set cands \<and> covered = \<Union> (cells ` set chosen) \<and> fresh_cover ones chosen)"

section \<open>Patterns of product terms\<close>

text \<open>
  For the proofs about \<open>expression_to_groups\<close>: what a product term fixes, read along
  \<open>vars_tuple\<close>, is a pattern with one entry per variable (\<open>None\<close> for a free
  variable). \<open>fill_pattern\<close> puts the bits of one assignment of the free variables
  in the free places, \<open>index_of_bits\<close> is the index of the resulting bit list, and
  \<open>pattern_minterms\<close> lists the indices over all assignments.
\<close>

fun fill_pattern :: "int option list \<Rightarrow> int list \<Rightarrow> int list" where
  "fill_pattern [] bits = []"
| "fill_pattern (Some b # p) bits = b # fill_pattern p bits"
| "fill_pattern (None # p) [] = []"
| "fill_pattern (None # p) (b # bits) = b # fill_pattern p bits"

definition index_of_bits :: "int list \<Rightarrow> int \<Rightarrow> int" where
  "index_of_bits bs idx = fold (\<lambda>b i. push_bit 1 i OR b) bs idx"

definition pattern_minterms :: "int option list \<Rightarrow> int list" where
  "pattern_minterms p =
    map (\<lambda>bits. index_of_bits (fill_pattern p bits) 0)
      (product_bits (length (filter (\<lambda>x. x = None) p)))"

text \<open>
  For the proofs about \<open>truth_minterms\<close>: the bits of an index, first variable first,
  as \<open>minterms_to_expression\<close> reads them.
\<close>

definition bits_of :: "nat \<Rightarrow> int \<Rightarrow> int list" where
  "bits_of n m = map (\<lambda>k. drop_bit (n - 1 - k) m AND 1) [0 ..< n]"

section \<open>Coordinates: bijection and Gray adjacency\<close>

lemma bij_betw_listI:
  assumes "distinct (map f xs)" and "set (map f xs) = B"
  shows "bij_betw f (set xs) B"
  using assms by (auto simp: bij_betw_def distinct_map)

lemma map_dimensions_cases:
  assumes "map_dimensions n = Inr (nrows, ncols)"
  shows "(n = 2 \<and> nrows = 2 \<and> ncols = 2) \<or> (n = 3 \<and> nrows = 2 \<and> ncols = 4) \<or> (n = 4 \<and> nrows = 4 \<and> ncols = 4)"
  using assms by (auto simp: map_dimensions_def split: if_splits)

lemma idx_to_rc_bij_2:
  "bij_betw (\<lambda>idx. idx_to_rc 2 idx ori) (set [0..3]) (Inr ` (set [0..1] \<times> set [0..1]))"
proof (cases ori)
  case True
  have "bij_betw (\<lambda>idx. idx_to_rc 2 idx True) (set [0..3]) (Inr ` (set [0..1] \<times> set [0..1]))"
    by (rule bij_betw_listI; code_simp)
  with True show ?thesis by simp
next
  case False
  have "bij_betw (\<lambda>idx. idx_to_rc 2 idx False) (set [0..3]) (Inr ` (set [0..1] \<times> set [0..1]))"
    by (rule bij_betw_listI; code_simp)
  with False show ?thesis by simp
qed

lemma idx_to_rc_bij_3:
  "bij_betw (\<lambda>idx. idx_to_rc 3 idx ori) (set [0..7]) (Inr ` (set [0..1] \<times> set [0..3]))"
proof (cases ori)
  case True
  have "bij_betw (\<lambda>idx. idx_to_rc 3 idx True) (set [0..7]) (Inr ` (set [0..1] \<times> set [0..3]))"
    by (rule bij_betw_listI; code_simp)
  with True show ?thesis by simp
next
  case False
  have "bij_betw (\<lambda>idx. idx_to_rc 3 idx False) (set [0..7]) (Inr ` (set [0..1] \<times> set [0..3]))"
    by (rule bij_betw_listI; code_simp)
  with False show ?thesis by simp
qed

lemma idx_to_rc_bij_4:
  "bij_betw (\<lambda>idx. idx_to_rc 4 idx ori) (set [0..15]) (Inr ` (set [0..3] \<times> set [0..3]))"
proof (cases ori)
  case True
  have "bij_betw (\<lambda>idx. idx_to_rc 4 idx True) (set [0..15]) (Inr ` (set [0..3] \<times> set [0..3]))"
    by (rule bij_betw_listI; code_simp)
  with True show ?thesis by simp
next
  case False
  have "bij_betw (\<lambda>idx. idx_to_rc 4 idx False) (set [0..15]) (Inr ` (set [0..3] \<times> set [0..3]))"
    by (rule bij_betw_listI; code_simp)
  with False show ?thesis by simp
qed

text \<open>
  Claim C2. For every variable count that \<open>map_dimensions\<close> accepts (2, 3 or 4) and
  either orientation, \<open>idx_to_rc\<close> never raises on an index of \<open>[0, 2^n - 1]\<close> and is a
  bijection from that range onto the grid \<open>[0, nrows) \<times> [0, ncols)\<close>.
\<close>

theorem idx_to_rc_bijection:
  assumes "map_dimensions n = Inr (nrows, ncols)"
  shows "bij_betw (\<lambda>idx. idx_to_rc n idx orient_cols_is_ab) {0 .. 2 ^ nat n - 1}
           (Inr ` ({0 ..< nrows} \<times> {0 ..< ncols}))"
proof -
  have r: "{0 ..< k} = set [0 .. k - 1]" for k :: int by auto
  from map_dimensions_cases [OF assms] show ?thesis
    using idx_to_rc_bij_2 [of orient_cols_is_ab] idx_to_rc_bij_3 [of orient_cols_is_ab]
      idx_to_rc_bij_4 [of orient_cols_is_ab]
    unfolding r by (elim disjE conjE) simp_all
qed

theorem idx_to_rc_bijection_witness:
  "map_dimensions 3 = Inr (2, 4) \<and>
   bij_betw (\<lambda>idx. idx_to_rc 3 idx True) {0 .. 2 ^ nat 3 - 1} (Inr ` ({0 ..< 2} \<times> {0 ..< 4}))"
proof -
  have h: "map_dimensions 3 = Inr (2, 4)" by (simp add: map_dimensions_def)
  show ?thesis using h idx_to_rc_bijection [OF h, of True] by simp
qed

lemma gray_step_2:
  "\<forall>ori \<in> set [True, False]. \<forall>i \<in> set [0..3]. \<forall>j \<in> set [0..3].
     (case (idx_to_rc 2 i ori, idx_to_rc 2 j ori) of
        (Inr (r, c), Inr (r', c')) \<Rightarrow>
          ((c' = c \<and> (r' = (r + 1) mod 2 \<or> r' = (r - 1) mod 2)) \<or>
           (r' = r \<and> (c' = (c + 1) mod 2 \<or> c' = (c - 1) mod 2)))
          \<longrightarrow> (i XOR j) \<in> set (map (\<lambda>k. 2 ^ k) [0 ..< 2])
      | _ \<Rightarrow> True)"
  by code_simp

lemma gray_step_3:
  "\<forall>ori \<in> set [True, False]. \<forall>i \<in> set [0..7]. \<forall>j \<in> set [0..7].
     (case (idx_to_rc 3 i ori, idx_to_rc 3 j ori) of
        (Inr (r, c), Inr (r', c')) \<Rightarrow>
          ((c' = c \<and> (r' = (r + 1) mod 2 \<or> r' = (r - 1) mod 2)) \<or>
           (r' = r \<and> (c' = (c + 1) mod 4 \<or> c' = (c - 1) mod 4)))
          \<longrightarrow> (i XOR j) \<in> set (map (\<lambda>k. 2 ^ k) [0 ..< 3])
      | _ \<Rightarrow> True)"
  by code_simp

lemma gray_step_4:
  "\<forall>ori \<in> set [True, False]. \<forall>i \<in> set [0..15]. \<forall>j \<in> set [0..15].
     (case (idx_to_rc 4 i ori, idx_to_rc 4 j ori) of
        (Inr (r, c), Inr (r', c')) \<Rightarrow>
          ((c' = c \<and> (r' = (r + 1) mod 4 \<or> r' = (r - 1) mod 4)) \<or>
           (r' = r \<and> (c' = (c + 1) mod 4 \<or> c' = (c - 1) mod 4)))
          \<longrightarrow> (i XOR j) \<in> set (map (\<lambda>k. 2 ^ k) [0 ..< 4])
      | _ \<Rightarrow> True)"
  by code_simp


lemma one_bit_of_xor:
  assumes "i XOR j \<in> set (map (\<lambda>k. (2 :: int) ^ k) [0 ..< n])"
  shows "\<exists>k < n. \<forall>m. (bit i m \<noteq> bit j m) = (m = k)"
proof -
  from assms obtain k where k: "k < n" "i XOR j = 2 ^ k" by auto
  have "(bit i m \<noteq> bit j m) = (m = k)" for m
  proof -
    have "bit (i XOR j) m = bit ((2 :: int) ^ k) m" using k(2) by simp
    then show ?thesis by (simp add: bit_xor_iff bit_exp_iff)
  qed
  with k(1) show ?thesis by blast
qed

text \<open>
  Claim C3. When the cells of two indices are one step apart along one axis, with
  wrap-around at the edges of the grid, the indices differ in exactly one bit position
  \<open>k\<close>, and \<open>k\<close> is one of the \<open>n\<close> positions.
\<close>

theorem gray_adjacency:
  assumes dims: "map_dimensions n = Inr (nrows, ncols)"
    and i: "i \<in> {0 .. 2 ^ nat n - 1}" and j: "j \<in> {0 .. 2 ^ nat n - 1}"
    and rc: "idx_to_rc n i orient_cols_is_ab = Inr (r, c)"
    and rc': "idx_to_rc n j orient_cols_is_ab = Inr (r', c')"
    and step: "(c' = c \<and> (r' = (r + 1) mod nrows \<or> r' = (r - 1) mod nrows)) \<or>
               (r' = r \<and> (c' = (c + 1) mod ncols \<or> c' = (c - 1) mod ncols))"
  shows "\<exists>k < nat n. \<forall>m. (bit i m \<noteq> bit j m) = (m = k)"
proof -
  have ori: "orient_cols_is_ab \<in> set [True, False]" by simp
  from map_dimensions_cases [OF dims]
  consider (two) "n = 2" "nrows = 2" "ncols = 2"
    | (three) "n = 3" "nrows = 2" "ncols = 4"
    | (four) "n = 4" "nrows = 4" "ncols = 4" by blast
  then show ?thesis
  proof cases
    case two
    from i j two have "i \<in> set [0..3]" "j \<in> set [0..3]" by simp_all
    from gray_step_2 [rule_format, OF ori this] rc rc' step two
    have "i XOR j \<in> set (map (\<lambda>k. 2 ^ k) [0 ..< 2])" by (simp only: prod.case sum.case; blast)
    from one_bit_of_xor [OF this] two show ?thesis by simp
  next
    case three
    from i j three have "i \<in> set [0..7]" "j \<in> set [0..7]" by simp_all
    from gray_step_3 [rule_format, OF ori this] rc rc' step three
    have "i XOR j \<in> set (map (\<lambda>k. 2 ^ k) [0 ..< 3])" by (simp only: prod.case sum.case; blast)
    from one_bit_of_xor [OF this] three show ?thesis by simp
  next
    case four
    from i j four have "i \<in> set [0..15]" "j \<in> set [0..15]" by simp_all
    from gray_step_4 [rule_format, OF ori this] rc rc' step four
    have "i XOR j \<in> set (map (\<lambda>k. 2 ^ k) [0 ..< 4])" by (simp only: prod.case sum.case; blast)
    from one_bit_of_xor [OF this] four show ?thesis by simp
  qed
qed

theorem gray_adjacency_witness:
  "map_dimensions 4 = Inr (4, 4) \<and> (8 :: int) \<in> {0 .. 2 ^ nat 4 - 1} \<and> (0 :: int) \<in> {0 .. 2 ^ nat 4 - 1} \<and>
   idx_to_rc 4 8 True = Inr (0, 3) \<and> idx_to_rc 4 0 True = Inr (0, 0) \<and>
   ((0 :: int) = 0 \<and> ((0 :: int) = (3 + 1) mod 4 \<or> (0 :: int) = (3 - 1) mod 4)) \<and>
   (\<exists>k < nat 4. \<forall>m. (bit (8 :: int) m \<noteq> bit (0 :: int) m) = (m = k))"
proof -
  have dims: "map_dimensions 4 = Inr (4, 4)" by (simp add: map_dimensions_def)
  have i: "(8 :: int) \<in> {0 .. 2 ^ nat 4 - 1}" and j: "(0 :: int) \<in> {0 .. 2 ^ nat 4 - 1}" by simp_all
  have rc: "idx_to_rc 4 8 True = Inr (0, 3)" by code_simp
  have rc': "idx_to_rc 4 0 True = Inr (0, 0)" by code_simp
  have step: "((0 :: int) = 3 \<and> ((0 :: int) = (0 + 1) mod 4 \<or> (0 :: int) = (0 - 1) mod 4)) \<or>
              ((0 :: int) = 0 \<and> ((0 :: int) = (3 + 1) mod 4 \<or> (0 :: int) = (3 - 1) mod 4))" by simp
  from gray_adjacency [OF dims i j rc rc' step] dims i j rc rc' show ?thesis by simp
qed

section \<open>Range validation\<close>

text \<open>
  Claim C6. For a variable count \<open>n \<ge> 0\<close>, \<open>validate_minterm_range\<close> raises exactly
  when some entry is negative or above \<open>2^n - 1\<close>; the message of the error then ends
  with the sorted list of the distinct offending entries; otherwise the call returns
  normally. The instance below is \<open>n = 3\<close> with the entry 9.
\<close>

theorem validate_minterm_range_spec:
  assumes "0 \<le> n"
  shows "validate_minterm_range minterms n =
    (if \<exists>m \<in> set minterms. m < 0 \<or> 2 ^ nat n - 1 < m
     then Inl (ValueError (''Minterms out of range for '' @ str_int n @ '' variables (0-''
            @ str_int (2 ^ nat n - 1) @ ''): ''
            @ str_int_list (sorted_list_of_set {m \<in> set minterms. m < 0 \<or> 2 ^ nat n - 1 < m})))
     else Inr ())"
proof -
  have s: "set (filter P minterms) = {m \<in> set minterms. P m}" for P by auto
  have e: "(filter P minterms \<noteq> []) = (\<exists>m \<in> set minterms. P m)" for P
    by (simp add: filter_empty_conv)
  show ?thesis
    using assms unfolding validate_minterm_range_def Let_def e s
    by (simp add: push_bit_of_1)
qed

theorem validate_minterm_range_spec_witness:
  "(0 :: int) \<le> 3 \<and>
   validate_minterm_range [1, 9, 3] 3 =
     Inl (ValueError ''Minterms out of range for 3 variables (0-7): [9]'')"
proof -
  have h: "(0 :: int) \<le> 3" by simp
  have e: "(if \<exists>m \<in> set [1, 9, 3 :: int]. m < 0 \<or> 2 ^ nat 3 - 1 < m
     then Inl (ValueError (''Minterms out of range for '' @ str_int 3 @ '' variables (0-''
            @ str_int (2 ^ nat 3 - 1) @ ''): ''
            @ str_int_list (sorted_list_of_set {m \<in> set [1, 9, 3 :: int]. m < 0 \<or> 2 ^ nat 3 - 1 < m})))
     else Inr ()) = Inl (ValueError ''Minterms out of range for 3 variables (0-7): [9]'')"
    by code_simp
  from validate_minterm_range_spec [OF h, of "[1, 9, 3]"] e h show ?thesis by simp
qed

section \<open>The two grouping scenarios\<close>

lemma set_iteration_sorted_list_of_set:
  "set_iteration (sorted_list_of_set :: cell set \<Rightarrow> cell list)"
  by (simp add: set_iteration_def)

lemma essentials_of_Nil:
  assumes "set_iteration iter" and "finite ones_cells"
    and "\<forall>cell \<in> ones_cells - covered_all.
           length (filter (\<lambda>g. cell \<in> cells g) candidates) \<noteq> 1"
  shows "essentials_of iter candidates ones_cells covered_all = []"
proof -
  have "set (iter (ones_cells - covered_all)) = ones_cells - covered_all"
    using assms(1,2) by (simp add: set_iteration_def)
  with assms(3) show ?thesis
    by (simp add: essentials_of_def Let_def)
qed

lemma essential_loop_stop:
  assumes "essentials_of iter candidates ones_cells covered_all = []"
  shows "essential_loop iter candidates ones_cells chosen covered_all = Some (chosen, covered_all)"
  using assms by (subst essential_loop.simps) simp

text \<open>
  Claim C7 reads the default orientation of the 2-variable map with A as the row index,
  so that the minterms 1 and 3 would be the cells \<open>(0, 1)\<close> and \<open>(1, 1)\<close> of one
  column. Under the default flag \<open>idx_to_rc\<close> returns \<open>(b, a)\<close>: that reading fails.
\<close>

theorem idx_to_rc_2_default_counterexample:
  "\<not> (idx_to_rc 2 1 True = Inr (0, 1) \<and> idx_to_rc 2 3 True = Inr (1, 1))"
  by code_simp

text \<open>
  Claim C7, amended. Under the default orientation of the 2-variable map, B is the row
  index and A the column index: the minterms 1 and 3 are the cells \<open>(1, 0)\<close> and
  \<open>(1, 1)\<close>, the two cells of the row B = 1, and \<open>select_group_rectangles\<close> returns
  exactly one rectangle for them, the 2-cell rectangle that spans that row.
\<close>

theorem select_minterms_1_3:
  assumes "set_iteration iter"
  shows "idx_to_rc 2 1 True = Inr (1, 0) \<and> idx_to_rc 2 3 True = Inr (1, 1) \<and>
         map_minterms_to_cells 2 [1, 3] True = Inr {(1, 0), (1, 1)} \<and>
         select_group_rectangles iter 2 2 {(1, 0), (1, 1)} =
           Some (Inr [\<lparr>r0 = 1, rows = 1, c0 = 0, cols = 2, cells = {(1, 0), (1, 1)}\<rparr>])"
proof -
  define cands where "cands =
    [\<lparr>r0 = 1, rows = 1, c0 = 0, cols = 2, cells = {(1, 0), (1, 1)}\<rparr>,
     \<lparr>r0 = 1, rows = 1, c0 = 1, cols = 2, cells = {(1, 1), (1, 0)}\<rparr>,
     \<lparr>r0 = 1, rows = 1, c0 = 0, cols = 1, cells = {(1, 0)}\<rparr>,
     \<lparr>r0 = 1, rows = 1, c0 = 1, cols = 1, cells = {(1, 1 :: int)}\<rparr>]"
  have a: "idx_to_rc 2 1 True = Inr (1, 0)" "idx_to_rc 2 3 True = Inr (1, 1)"
    "map_minterms_to_cells 2 [1, 3] True = Inr {(1, 0), (1, 1)}"
    by code_simp+
  have c: "(case all_rects 2 2 of
              None \<Rightarrow> None
            | Some (Inl e) \<Rightarrow> Some (Inl e)
            | Some (Inr rects) \<Rightarrow> Some (candidates_of rects 2 2 {(1, 0), (1, 1)})) = Some (Inr cands)"
    unfolding cands_def by code_simp
  have n: "\<forall>cell \<in> {(1, 0), (1, 1)} - {}. length (filter (\<lambda>g. cell \<in> cells g) cands) \<noteq> 1"
    unfolding cands_def by code_simp
  have e: "essential_loop iter cands {(1, 0), (1, 1)} [] {} = Some ([], {})"
    by (rule essential_loop_stop, rule essentials_of_Nil [OF assms _ n]) simp
  have g: "greedy_loop cands {(1, 0), (1, 1)} [] {} ({(1, 0), (1, 1)} - {}) =
      Some (Inr [\<lparr>r0 = 1, rows = 1, c0 = 0, cols = 2, cells = {(1, 0), (1, 1)}\<rparr>])"
    unfolding cands_def by code_simp
  have "select_group_rectangles iter 2 2 {(1, 0), (1, 1)} =
      Some (Inr [\<lparr>r0 = 1, rows = 1, c0 = 0, cols = 2, cells = {(1, 0), (1, 1)}\<rparr>])"
    using c e g unfolding select_group_rectangles_def
    by (auto split: option.splits sum.splits)
  with a show ?thesis by simp
qed


theorem select_minterms_1_3_witness:
  "set_iteration (sorted_list_of_set :: cell set \<Rightarrow> cell list) \<and>
   select_group_rectangles sorted_list_of_set 2 2 {(1, 0), (1, 1)} =
     Some (Inr [\<lparr>r0 = 1, rows = 1, c0 = 0, cols = 2, cells = {(1, 0), (1, 1)}\<rparr>])"
  using select_minterms_1_3 [OF set_iteration_sorted_list_of_set]
    set_iteration_sorted_list_of_set by blast

text \<open>
  Claim C8. For the 4-variable map under the default orientation, the even minterms
  are the 8 cells whose D bit is 0; \<open>select_group_rectangles\<close> returns exactly one
  rectangle for them, its cell set is those 8 cells, and \<open>label_rect_4\<close> labels it
  \<open>D'\<close>.
\<close>

theorem select_even_minterms:
  assumes "set_iteration iter"
  shows "map_minterms_to_cells 4 [0, 2, 4, 6, 8, 10, 12, 14] True =
           Inr {(0, 0), (0, 1), (0, 2), (0, 3), (3, 0), (3, 1), (3, 2), (3, 3)} \<and>
         select_group_rectangles iter 4 4 {(0, 0), (0, 1), (0, 2), (0, 3), (3, 0), (3, 1), (3, 2), (3, 3)} =
           Some (Inr [\<lparr>r0 = 3, rows = 2, c0 = 0, cols = 4,
                       cells = {(0, 0), (0, 1), (0, 2), (0, 3), (3, 0), (3, 1), (3, 2), (3, 3)}\<rparr>]) \<and>
         {(0, 0), (0, 1), (0, 2), (0, 3), (3, 0), (3, 1), (3, 2), (3, 3)} =
           {rc \<in> set [0 .. 3] \<times> set [0 .. 3].
              map_sum id (\<lambda>(a, b, c_bit, d). d) (rc_to_bits_4 (fst rc) (snd rc) True) = Inr 0} \<and>
         label_rect_4 \<lparr>r0 = 3, rows = 2, c0 = 0, cols = 4,
                       cells = {(0, 0), (0, 1), (0, 2), (0, 3), (3, 0), (3, 1), (3, 2), (3, 3)}\<rparr> True =
           Inr [CHR ''D'', CHR 0x27]"
proof -
  define ones :: "cell set" where
    "ones = {(0, 0), (0, 1), (0, 2), (0, 3), (3, 0), (3, 1), (3, 2), (3, 3)}"
  define cands where "cands = projr (candidates_of (projr (the (all_rects 4 4))) 4 4 ones)"
  define g where "g = \<lparr>r0 = 3, rows = 2, c0 = 0, cols = 4, cells = ones\<rparr>"
  have a: "map_minterms_to_cells 4 [0, 2, 4, 6, 8, 10, 12, 14] True = Inr ones"
    unfolding ones_def by code_simp
  have c: "(case all_rects 4 4 of
              None \<Rightarrow> None
            | Some (Inl e) \<Rightarrow> Some (Inl e)
            | Some (Inr rects) \<Rightarrow> Some (candidates_of rects 4 4 ones)) = Some (Inr cands)"
    unfolding cands_def ones_def by code_simp
  have n: "\<forall>cell \<in> ones - {}. length (filter (\<lambda>g. cell \<in> cells g) cands) \<noteq> 1"
    unfolding cands_def ones_def by code_simp
  have "finite ones" by (simp add: ones_def)
  from essentials_of_Nil [OF assms this n]
  have e: "essential_loop iter cands ones [] {} = Some ([], {})"
    by (rule essential_loop_stop)
  have gr: "greedy_loop cands ones [] {} (ones - {}) = Some (Inr [g])"
    unfolding cands_def ones_def g_def by code_simp
  have s: "select_group_rectangles iter 4 4 ones = Some (Inr [g])"
  proof -
    have "ones \<noteq> {}" by (simp add: ones_def)
    then show ?thesis
      using c e gr unfolding select_group_rectangles_def
      by (auto split: option.splits sum.splits)
  qed
  have d: "ones = {rc \<in> set [0 .. 3] \<times> set [0 .. 3].
              map_sum id (\<lambda>(a, b, c_bit, d). d) (rc_to_bits_4 (fst rc) (snd rc) True) = Inr 0}"
    unfolding ones_def by code_simp
  have l: "label_rect_4 g True = Inr [CHR ''D'', CHR 0x27]"
    unfolding g_def ones_def by code_simp
  from a s d l show ?thesis unfolding g_def ones_def by blast
qed

theorem select_even_minterms_witness:
  "set_iteration (sorted_list_of_set :: cell set \<Rightarrow> cell list) \<and>
   select_group_rectangles sorted_list_of_set 4 4
       {(0, 0), (0, 1), (0, 2), (0, 3), (3, 0), (3, 1), (3, 2), (3, 3)} =
     Some (Inr [\<lparr>r0 = 3, rows = 2, c0 = 0, cols = 4,
                 cells = {(0, 0), (0, 1), (0, 2), (0, 3), (3, 0), (3, 1), (3, 2), (3, 3)}\<rparr>])"
  using select_even_minterms [OF set_iteration_sorted_list_of_set]
    set_iteration_sorted_list_of_set by blast

section \<open>Rectangle geometry: the placements\<close>

lemma power_sizes_loop_result:
  "\<exists>m. Suc j \<le> m \<and>
       power_sizes_loop (map (\<lambda>k. 2 ^ k) [0 ..< Suc j]) limit = Some (Inr (map (\<lambda>k. 2 ^ k) [0 ..< m])) \<and>
       limit < 2 ^ m \<and> (\<forall>i. j < i \<and> i < m \<longrightarrow> 2 ^ i \<le> limit)"
proof (induction "nat (limit - 2 ^ j)" arbitrary: j rule: less_induct)
  case less
  show ?case
  proof (cases "(2 :: int) ^ j * 2 \<le> limit")
    case True
    have step: "power_sizes_loop (map (\<lambda>k. 2 ^ k) [0 ..< Suc j]) limit =
        power_sizes_loop (map (\<lambda>k. 2 ^ k) [0 ..< Suc (Suc j)]) limit"
      using True by (subst power_sizes_loop.simps) (simp add: mult.commute)
    have "(1 :: int) \<le> 2 ^ j" and "(2 :: int) ^ Suc j = 2 ^ j * 2" by simp_all
    with True have "nat (limit - 2 ^ Suc j) < nat (limit - 2 ^ j)" by linarith
    from less [OF this] obtain m where m: "Suc (Suc j) \<le> m"
      "power_sizes_loop (map (\<lambda>k. 2 ^ k) [0 ..< Suc (Suc j)]) limit = Some (Inr (map (\<lambda>k. 2 ^ k) [0 ..< m]))"
      "limit < 2 ^ m" "\<forall>i. Suc j < i \<and> i < m \<longrightarrow> 2 ^ i \<le> limit"
      by blast
    have "2 ^ i \<le> limit" if "j < i" "i < m" for i
    proof (cases "i = Suc j")
      case True
      with \<open>2 ^ j * 2 \<le> limit\<close> show ?thesis by (simp add: mult.commute)
    next
      case False
      with that m(4) show ?thesis by simp
    qed
    with m step show ?thesis
      by (intro exI [of _ m]) simp
  next
    case False
    then have "power_sizes_loop (map (\<lambda>k. 2 ^ k) [0 ..< Suc j]) limit =
        Some (Inr (map (\<lambda>k. 2 ^ k) [0 ..< Suc j]))"
      by (subst power_sizes_loop.simps) simp
    with False show ?thesis
      by (intro exI [of _ "Suc j"]) (simp add: mult.commute)
  qed
qed

lemma power_sizes_result:
  "\<exists>sizes. power_sizes limit = Some (Inr sizes) \<and> distinct sizes \<and>
     (0 < limit \<longrightarrow> set sizes = {x. (\<exists>k. x = 2 ^ k) \<and> x \<le> limit})"
proof -
  from power_sizes_loop_result [of 0 limit] obtain m where m: "1 \<le> m"
    "power_sizes limit = Some (Inr (map (\<lambda>k. 2 ^ k) [0 ..< m]))"
    "limit < 2 ^ m" "\<forall>i. 0 < i \<and> i < m \<longrightarrow> 2 ^ i \<le> limit"
    by (auto simp: power_sizes_def)
  have d: "distinct (map (\<lambda>k. (2 :: int) ^ k) [0 ..< m])"
    by (simp add: distinct_map inj_on_def)
  have s: "set (map (\<lambda>k. (2 :: int) ^ k) [0 ..< m]) = {x. (\<exists>k. x = 2 ^ k) \<and> x \<le> limit}"
    if "0 < limit"
  proof (intro equalityI subsetI)
    fix x assume "x \<in> set (map (\<lambda>k. (2 :: int) ^ k) [0 ..< m])"
    then obtain k where k: "k < m" "x = 2 ^ k" by auto
    have "x \<le> limit"
    proof (cases "k = 0")
      case True
      with k that show ?thesis by simp
    next
      case False
      with k m(4) show ?thesis by simp
    qed
    with k show "x \<in> {x. (\<exists>k. x = 2 ^ k) \<and> x \<le> limit}" by blast
  next
    fix x assume "x \<in> {x. (\<exists>k. x = 2 ^ k) \<and> x \<le> limit}"
    then obtain k where k: "x = 2 ^ k" "x \<le> limit" by blast
    with m(3) have "(2 :: int) ^ k < 2 ^ m" by linarith
    then have "k < m" by simp
    with k show "x \<in> set (map (\<lambda>k. (2 :: int) ^ k) [0 ..< m])" by simp
  qed
  from m(2) d s show ?thesis by blast
qed

lemma distinct_concat_map:
  assumes "distinct xs"
    and "\<And>x. x \<in> set xs \<Longrightarrow> distinct (f x)"
    and "\<And>x y. x \<in> set xs \<Longrightarrow> y \<in> set xs \<Longrightarrow> x \<noteq> y \<Longrightarrow> set (f x) \<inter> set (f y) = {}"
  shows "distinct (concat (map f xs))"
  using assms by (induction xs) auto

lemma distinct_placements:
  assumes "distinct sizes_r" "distinct sizes_c"
  shows "distinct [(r0', rows', c0', cols').
                     rows' \<leftarrow> rev sizes_r, cols' \<leftarrow> rev sizes_c,
                     r0' \<leftarrow> [0 .. nrows - 1], c0' \<leftarrow> [0 .. ncols - 1 :: int]]"
  using assms
  by (intro distinct_concat_map) (auto simp: distinct_map inj_on_def)

lemma all_rects_unfold:
  "\<exists>sizes_r sizes_c.
     all_rects nrows ncols =
       Some (Inr (sort_key (\<lambda>(r0', rows', c0', cols'). - (rows' * cols'))
         [(r0', rows', c0', cols').
            rows' \<leftarrow> rev sizes_r, cols' \<leftarrow> rev sizes_c,
            r0' \<leftarrow> [0 .. nrows - 1], c0' \<leftarrow> [0 .. ncols - 1]])) \<and>
     distinct sizes_r \<and> distinct sizes_c \<and>
     set [(r0', rows', c0', cols').
            rows' \<leftarrow> rev sizes_r, cols' \<leftarrow> rev sizes_c,
            r0' \<leftarrow> [0 .. nrows - 1], c0' \<leftarrow> [0 .. ncols - 1]] =
       {(r0', rows', c0', cols').
          (\<exists>k. rows' = 2 ^ k) \<and> rows' \<le> nrows \<and> (\<exists>k. cols' = 2 ^ k) \<and> cols' \<le> ncols \<and>
          0 \<le> r0' \<and> r0' < nrows \<and> 0 \<le> c0' \<and> c0' < ncols}"
proof -
  from power_sizes_result [of nrows] obtain sizes_r where r:
    "power_sizes nrows = Some (Inr sizes_r)" "distinct sizes_r"
    "0 < nrows \<longrightarrow> set sizes_r = {x. (\<exists>k. x = 2 ^ k) \<and> x \<le> nrows}" by blast
  from power_sizes_result [of ncols] obtain sizes_c where c:
    "power_sizes ncols = Some (Inr sizes_c)" "distinct sizes_c"
    "0 < ncols \<longrightarrow> set sizes_c = {x. (\<exists>k. x = 2 ^ k) \<and> x \<le> ncols}" by blast
  define ps where "ps = [(r0', rows', c0', cols').
                     rows' \<leftarrow> rev sizes_r, cols' \<leftarrow> rev sizes_c,
                     r0' \<leftarrow> [0 .. nrows - 1], c0' \<leftarrow> [0 .. ncols - 1]]"
  have a: "all_rects nrows ncols =
      Some (Inr (sort_key (\<lambda>(r0', rows', c0', cols'). - (rows' * cols')) ps))"
    by (simp add: all_rects_def r(1) c(1) ps_def)
  have s: "set ps = {(r0', rows', c0', cols').
                    (\<exists>k. rows' = 2 ^ k) \<and> rows' \<le> nrows \<and> (\<exists>k. cols' = 2 ^ k) \<and> cols' \<le> ncols \<and>
                    0 \<le> r0' \<and> r0' < nrows \<and> 0 \<le> c0' \<and> c0' < ncols}"
  proof -
    have m: "set ps = {(r0', rows', c0', cols').
        rows' \<in> set sizes_r \<and> cols' \<in> set sizes_c \<and>
        r0' \<in> {0 .. nrows - 1} \<and> c0' \<in> {0 .. ncols - 1}}"
      by (auto simp: ps_def image_iff)
    show ?thesis
    proof (cases "0 < nrows \<and> 0 < ncols")
      case True
      with r(3) c(3) show ?thesis unfolding m by auto
    next
      case False
      then show ?thesis unfolding m by auto
    qed
  qed
  from a s r(2) c(2) show ?thesis unfolding ps_def by blast
qed

lemma all_rects_placements:
  "\<exists>rects. all_rects nrows ncols = Some (Inr rects) \<and>
     set rects = {(r0', rows', c0', cols').
                    (\<exists>k. rows' = 2 ^ k) \<and> rows' \<le> nrows \<and> (\<exists>k. cols' = 2 ^ k) \<and> cols' \<le> ncols \<and>
                    0 \<le> r0' \<and> r0' < nrows \<and> 0 \<le> c0' \<and> c0' < ncols}"
proof -
  from all_rects_unfold [of nrows ncols] obtain ps where
    "all_rects nrows ncols = Some (Inr (sort_key (\<lambda>(r0', rows', c0', cols'). - (rows' * cols')) ps))"
    "set ps = {(r0', rows', c0', cols').
                    (\<exists>k. rows' = 2 ^ k) \<and> rows' \<le> nrows \<and> (\<exists>k. cols' = 2 ^ k) \<and> cols' \<le> ncols \<and>
                    0 \<le> r0' \<and> r0' < nrows \<and> 0 \<le> c0' \<and> c0' < ncols}"
    by blast
  then show ?thesis by simp
qed

text \<open>
  Claim C9. For every grid size, \<open>all_rects\<close> returns a list that holds exactly the
  placements whose height and width are powers of two not above \<open>nrows\<close> and
  \<open>ncols\<close> and whose offset is in \<open>[0, nrows) \<times> [0, ncols)\<close>, each of them once, in
  non-increasing order of area.
\<close>

theorem all_rects_spec:
  "\<exists>rects. all_rects nrows ncols = Some (Inr rects) \<and>
     set rects = {(r0', rows', c0', cols').
                    (\<exists>k. rows' = 2 ^ k) \<and> rows' \<le> nrows \<and> (\<exists>k. cols' = 2 ^ k) \<and> cols' \<le> ncols \<and>
                    0 \<le> r0' \<and> r0' < nrows \<and> 0 \<le> c0' \<and> c0' < ncols} \<and>
     distinct rects \<and>
     sorted_wrt (\<lambda>(r0a, rowsa, c0a, colsa) (r0b, rowsb, c0b, colsb). rowsa * colsa \<ge> rowsb * colsb) rects"
proof -
  define key :: "int \<times> int \<times> int \<times> int \<Rightarrow> int" where
    "key = (\<lambda>(r0', rows', c0', cols'). - (rows' * cols'))"
  from all_rects_unfold [of nrows ncols] obtain sizes_r sizes_c ps where
    ps: "ps = [(r0', rows', c0', cols').
                     rows' \<leftarrow> rev sizes_r, cols' \<leftarrow> rev sizes_c,
                     r0' \<leftarrow> [0 .. nrows - 1], c0' \<leftarrow> [0 .. ncols - 1]]"
    and a: "all_rects nrows ncols = Some (Inr (sort_key key ps))"
    and dr: "distinct sizes_r" and dc: "distinct sizes_c"
    and s: "set ps = {(r0', rows', c0', cols').
                    (\<exists>k. rows' = 2 ^ k) \<and> rows' \<le> nrows \<and> (\<exists>k. cols' = 2 ^ k) \<and> cols' \<le> ncols \<and>
                    0 \<le> r0' \<and> r0' < nrows \<and> 0 \<le> c0' \<and> c0' < ncols}"
    unfolding key_def by blast
  have d: "distinct ps" unfolding ps by (rule distinct_placements [OF dr dc])
  have "sorted (map key (sort_key key ps))" by (rule sorted_sort_key)
  then have o: "sorted_wrt (\<lambda>(r0a, rowsa, c0a, colsa) (r0b, rowsb, c0b, colsb). rowsa * colsa \<ge> rowsb * colsb)
      (sort_key key ps)"
    unfolding sorted_map
    by (rule sorted_wrt_mono_rel [rotated]) (auto simp: key_def)
  from a s d o show ?thesis by (intro exI [of _ "sort_key key ps"]) simp
qed

section \<open>The grouping selector: cover and fresh cells\<close>

subsection \<open>The candidates\<close>

lemma rect_cells_finite: "rect_cells a b c d nrows ncols = Inr full \<Longrightarrow> finite full"
  by (auto simp: rect_cells_def split: if_splits)

lemma candidates_of_sound:
  "candidates_of rects nrows ncols ones = Inr cands \<Longrightarrow> g \<in> set cands \<Longrightarrow>
     (r0 g, rows g, c0 g, cols g) \<in> set rects \<and>
     rect_cells (r0 g) (rows g) (c0 g) (cols g) nrows ncols = Inr (cells g) \<and>
     cells g \<noteq> {} \<and> cells g \<subseteq> ones"
proof (induction rects arbitrary: cands)
  case Nil
  then show ?case by simp
next
  case (Cons p rects)
  obtain a b c d where p: "p = (a, b, c, d)" by (cases p) auto
  from Cons.prems(1) p obtain full cs where
    full: "rect_cells a b c d nrows ncols = Inr full"
    and cs: "candidates_of rects nrows ncols ones = Inr cs"
    and cands: "cands = (if full \<noteq> {} \<and> full \<subseteq> ones
                         then \<lparr>r0 = a, rows = b, c0 = c, cols = d, cells = full\<rparr> # cs else cs)"
    by (auto split: sum.splits)
  show ?case
  proof (cases "g \<in> set cs")
    case True
    from Cons.IH [OF cs True] show ?thesis by simp
  next
    case False
    with Cons.prems(2) cands
    have "g = \<lparr>r0 = a, rows = b, c0 = c, cols = d, cells = full\<rparr>" "full \<noteq> {}" "full \<subseteq> ones"
      by (auto split: if_splits)
    with full p show ?thesis by simp
  qed
qed

lemma candidates_of_complete:
  "candidates_of rects nrows ncols ones = Inr cands \<Longrightarrow> (a, b, c, d) \<in> set rects \<Longrightarrow>
   rect_cells a b c d nrows ncols = Inr full \<Longrightarrow> full \<noteq> {} \<Longrightarrow> full \<subseteq> ones \<Longrightarrow>
   \<lparr>r0 = a, rows = b, c0 = c, cols = d, cells = full\<rparr> \<in> set cands"
proof (induction rects arbitrary: cands)
  case Nil
  then show ?case by simp
next
  case (Cons p rects)
  obtain a' b' c' d' where p: "p = (a', b', c', d')" by (cases p) auto
  from Cons.prems(1) p obtain full' cs where
    full': "rect_cells a' b' c' d' nrows ncols = Inr full'"
    and cs: "candidates_of rects nrows ncols ones = Inr cs"
    and cands: "cands = (if full' \<noteq> {} \<and> full' \<subseteq> ones
                         then \<lparr>r0 = a', rows = b', c0 = c', cols = d', cells = full'\<rparr> # cs else cs)"
    by (auto split: sum.splits)
  show ?case
  proof (cases "(a, b, c, d) \<in> set rects")
    case True
    from Cons.IH [OF cs True Cons.prems(3,4,5)] cands show ?thesis by simp
  next
    case False
    with Cons.prems(2) p have "a' = a" "b' = b" "c' = c" "d' = d" by auto
    with full' Cons.prems(3,4,5) cands show ?thesis by simp
  qed
qed

lemma candidates_of_total:
  assumes "\<forall>(a, b, c, d) \<in> set rects. 0 \<le> a \<and> a < nrows \<and> 0 \<le> c \<and> c < ncols"
  shows "\<exists>cands. candidates_of rects nrows ncols ones = Inr cands"
  using assms
proof (induction rects)
  case Nil
  then show ?case by simp
next
  case (Cons p rects)
  obtain a b c d where p: "p = (a, b, c, d)" by (cases p) auto
  from Cons.prems p have "0 \<le> a" "a < nrows" "0 \<le> c" "c < ncols" by auto
  then obtain full where "rect_cells a b c d nrows ncols = Inr full"
    by (auto simp: rect_cells_def)
  moreover from Cons obtain cs where "candidates_of rects nrows ncols ones = Inr cs" by auto
  ultimately show ?case using p by simp
qed

lemma rect_cells_unit:
  assumes "0 \<le> r" "r < nrows" "0 \<le> c" "c < ncols"
  shows "rect_cells r 1 c 1 nrows ncols = Inr {(r, c)}"
  using assms by (simp add: rect_cells_def)

subsection \<open>Fresh covers\<close>

lemma fresh_cover_Nil: "fresh_cover ones []"
  by (simp add: fresh_cover_def)

lemma fresh_cover_snoc:
  assumes "fresh_cover ones chosen" and "x \<in> ones" and "x \<in> cells g"
    and "x \<notin> \<Union> (cells ` set chosen)"
  shows "fresh_cover ones (chosen @ [g])"
  unfolding fresh_cover_def
proof (intro allI impI)
  fix i assume i: "i < length (chosen @ [g])"
  show "\<exists>x \<in> ones. x \<in> cells ((chosen @ [g]) ! i) \<and> (\<forall>j < i. x \<notin> cells ((chosen @ [g]) ! j))"
  proof (cases "i < length chosen")
    case True
    with assms(1) obtain y where "y \<in> ones" "y \<in> cells (chosen ! i)"
      "\<forall>j < i. y \<notin> cells (chosen ! j)"
      unfolding fresh_cover_def by blast
    with True show ?thesis by (auto simp: nth_append)
  next
    case False
    with i have e: "i = length chosen" by simp
    have "x \<notin> cells (chosen ! j)" if "j < length chosen" for j
      using assms(4) that by auto
    with assms(2,3) e show ?thesis by (auto simp: nth_append)
  qed
qed

lemma selector_inv_snoc:
  assumes "selector_inv cands ones chosen covered" and "g \<in> set cands"
    and "x \<in> ones" and "x \<in> cells g" and "x \<notin> covered"
  shows "selector_inv cands ones (chosen @ [g]) (covered \<union> cells g)"
proof -
  from assms(1) have c: "covered = \<Union> (cells ` set chosen)" by (simp add: selector_inv_def)
  from assms(1) have "fresh_cover ones chosen" by (simp add: selector_inv_def)
  from fresh_cover_snoc [OF this assms(3,4)] assms(5) c
  have "fresh_cover ones (chosen @ [g])" by simp
  with assms(1,2) c show ?thesis by (auto simp: selector_inv_def)
qed

subsection \<open>The essential pass\<close>

lemma essentials_of_elem:
  assumes "set_iteration iter" and "finite ones"
    and "g \<in> set (essentials_of iter cands ones covered)"
  shows "g \<in> set cands \<and>
         (\<exists>x \<in> ones - covered. x \<in> cells g \<and> (\<forall>g' \<in> set cands. x \<in> cells g' \<longrightarrow> g' = g))"
proof -
  have s: "set (iter (ones - covered)) = ones - covered"
    using assms(1,2) by (simp add: set_iteration_def)
  from assms(3) obtain x where "x \<in> set (iter (ones - covered))"
    and l: "length (filter (\<lambda>g. x \<in> cells g) cands) = 1"
    and g: "g = filter (\<lambda>g. x \<in> cells g) cands ! 0"
    unfolding essentials_of_def Let_def
    by (auto split: if_splits)
  with s have x: "x \<in> ones - covered" by simp
  from l g have f: "filter (\<lambda>g. x \<in> cells g) cands = [g]"
    by (cases "filter (\<lambda>g. x \<in> cells g) cands") auto
  then have "set (filter (\<lambda>g. x \<in> cells g) cands) = {g}" by simp
  then have "g \<in> set cands" "x \<in> cells g" "\<forall>g' \<in> set cands. x \<in> cells g' \<longrightarrow> g' = g"
    by auto
  with x show ?thesis by blast
qed

lemma add_essentials_inv:
  assumes "\<forall>g \<in> set ess. g \<in> set cands \<and>
             (\<exists>x \<in> ones. x \<in> cells g \<and> (\<forall>g' \<in> set cands. x \<in> cells g' \<longrightarrow> g' = g))"
    and "selector_inv cands ones chosen covered"
  shows "selector_inv cands ones (fst (add_essentials ess (chosen, covered)))
           (snd (add_essentials ess (chosen, covered))) \<and>
         covered \<subseteq> snd (add_essentials ess (chosen, covered)) \<and>
         (\<forall>g \<in> set ess. cells g \<subseteq> snd (add_essentials ess (chosen, covered)))"
  using assms
proof (induction ess arbitrary: chosen covered)
  case Nil
  then show ?case by simp
next
  case (Cons g ess)
  have "g \<in> set (g # ess)" by simp
  with Cons.prems(1) have g: "g \<in> set cands"
    and ex: "\<exists>x \<in> ones. x \<in> cells g \<and> (\<forall>g' \<in> set cands. x \<in> cells g' \<longrightarrow> g' = g)"
    by blast+
  from ex obtain x where x: "x \<in> ones" "x \<in> cells g"
    "\<forall>g' \<in> set cands. x \<in> cells g' \<longrightarrow> g' = g" by blast
  have rest: "\<forall>g \<in> set ess. g \<in> set cands \<and>
             (\<exists>x \<in> ones. x \<in> cells g \<and> (\<forall>g' \<in> set cands. x \<in> cells g' \<longrightarrow> g' = g))"
    using Cons.prems(1) by (meson list.set_intros(2))
  from Cons.prems(2) have sub: "set chosen \<subseteq> set cands" and cov: "covered = \<Union> (cells ` set chosen)"
    by (simp_all add: selector_inv_def)
  show ?case
  proof (cases "g \<in> set chosen")
    case True
    then have e: "add_essentials (g # ess) (chosen, covered) = add_essentials ess (chosen, covered)"
      by simp
    define S where "S = snd (add_essentials ess (chosen, covered))"
    from True cov have cg: "cells g \<subseteq> covered" by blast
    from Cons.IH [OF rest Cons.prems(2)]
    have i1: "selector_inv cands ones (fst (add_essentials ess (chosen, covered))) S"
      and i2: "covered \<subseteq> S" and i3: "\<forall>g \<in> set ess. cells g \<subseteq> S"
      unfolding S_def by blast+
    from cg i2 have "cells g \<subseteq> S" by blast
    with i3 have "\<forall>h \<in> set (g # ess). cells h \<subseteq> S" by simp
    with i1 i2 show ?thesis unfolding e S_def by blast
  next
    case False
    then have e: "add_essentials (g # ess) (chosen, covered) =
        add_essentials ess (chosen @ [g], covered \<union> cells g)"
      by simp
    define S where "S = snd (add_essentials ess (chosen @ [g], covered \<union> cells g))"
    have "x \<notin> covered"
    proof
      assume "x \<in> covered"
      with cov obtain g' where g': "g' \<in> set chosen" "x \<in> cells g'" by blast
      with sub have "g' \<in> set cands" by blast
      with x(3) g'(2) have "g' = g" by blast
      with g'(1) False show False by simp
    qed
    from selector_inv_snoc [OF Cons.prems(2) g x(1,2) this]
    have "selector_inv cands ones (chosen @ [g]) (covered \<union> cells g)" .
    from Cons.IH [OF rest this]
    have i1: "selector_inv cands ones (fst (add_essentials ess (chosen @ [g], covered \<union> cells g))) S"
      and i2: "covered \<union> cells g \<subseteq> S" and i3: "\<forall>g \<in> set ess. cells g \<subseteq> S"
      unfolding S_def by blast+
    from i2 have "covered \<subseteq> S" "cells g \<subseteq> S" by blast+
    with i3 have "covered \<subseteq> S" "\<forall>h \<in> set (g # ess). cells h \<subseteq> S" by simp_all
    with i1 show ?thesis unfolding e S_def by blast
  qed
qed

lemma essential_loop_result:
  assumes "set_iteration iter" and "finite ones"
    and "selector_inv cands ones chosen covered"
  shows "\<exists>chosen' covered'.
           essential_loop iter cands ones chosen covered = Some (chosen', covered') \<and>
           selector_inv cands ones chosen' covered'"
  using assms(3)
proof (induction "card (ones - covered)" arbitrary: chosen covered rule: less_induct)
  case less
  define ess where "ess = essentials_of iter cands ones covered"
  show ?case
  proof (cases "ess = []")
    case True
    then have "essential_loop iter cands ones chosen covered = Some (chosen, covered)"
      unfolding ess_def by (subst essential_loop.simps) simp
    with less.prems show ?thesis by blast
  next
    case False
    define chosen' where "chosen' = fst (add_essentials ess (chosen, covered))"
    define covered' where "covered' = snd (add_essentials ess (chosen, covered))"
    from False have step: "essential_loop iter cands ones chosen covered =
        essential_loop iter cands ones chosen' covered'"
      unfolding ess_def chosen'_def covered'_def by (subst essential_loop.simps) simp
    have el: "\<forall>g \<in> set ess. g \<in> set cands \<and>
             (\<exists>x \<in> ones - covered. x \<in> cells g \<and> (\<forall>g' \<in> set cands. x \<in> cells g' \<longrightarrow> g' = g))"
      unfolding ess_def using essentials_of_elem [OF assms(1,2)] by blast
    then have "\<forall>g \<in> set ess. g \<in> set cands \<and>
             (\<exists>x \<in> ones. x \<in> cells g \<and> (\<forall>g' \<in> set cands. x \<in> cells g' \<longrightarrow> g' = g))"
      by blast
    from add_essentials_inv [OF this less.prems]
    have inv: "selector_inv cands ones chosen' covered'"
      and mono: "covered \<subseteq> covered'"
      and all: "\<forall>g \<in> set ess. cells g \<subseteq> covered'"
      unfolding chosen'_def covered'_def by blast+
    from False obtain g where "g \<in> set ess" by (cases ess) auto
    with el all obtain x where "x \<in> ones - covered" "x \<in> covered'" by blast
    with mono have "ones - covered' \<subset> ones - covered" by blast
    with assms(2) have "card (ones - covered') < card (ones - covered)"
      by (intro psubset_card_mono) auto
    from less.hyps [OF this inv] step show ?thesis by simp
  qed
qed

subsection \<open>The greedy pass\<close>

lemma fold_max_key:
  "fold (\<lambda>y best. if key best < key y then y else best) rest x \<in> set (x # rest) \<and>
   (\<forall>y \<in> set (x # rest). key y \<le> key (fold (\<lambda>y best. if key best < key y then y else best) rest x))"
  for key :: "'a \<Rightarrow> nat"
proof (induction rest arbitrary: x)
  case Nil
  then show ?case by simp
next
  case (Cons z rest)
  show ?case
  proof (cases "key x < key z")
    case True
    with Cons [of z] show ?thesis by auto
  next
    case False
    with Cons [of x] show ?thesis by auto
  qed
qed

lemma py_max_result:
  assumes "xs \<noteq> []"
  shows "\<exists>best. py_max key xs = Inr best \<and> best \<in> set xs \<and> (\<forall>y \<in> set xs. key y \<le> key best)"
proof -
  from assms obtain x rest where xs: "xs = x # rest" by (cases xs) auto
  from fold_max_key [of key rest x] show ?thesis
    unfolding xs py_max_def by simp
qed

lemma greedy_loop_result:
  assumes "finite ones"
    and cover: "\<forall>x \<in> ones. \<exists>g \<in> set cands. x \<in> cells g"
    and "selector_inv cands ones chosen covered"
  shows "\<exists>chosen'.
           greedy_loop cands ones chosen covered (ones - covered) = Some (Inr chosen') \<and>
           selector_inv cands ones chosen' (\<Union> (cells ` set chosen')) \<and>
           ones \<subseteq> \<Union> (cells ` set chosen')"
  using assms(3)
proof (induction "card (ones - covered)" arbitrary: chosen covered rule: less_induct)
  case less
  from less.prems have cov: "covered = \<Union> (cells ` set chosen)" by (simp add: selector_inv_def)
  show ?case
  proof (cases "ones - covered = {}")
    case True
    then have "greedy_loop cands ones chosen covered (ones - covered) = Some (Inr chosen)"
      by (subst greedy_loop.simps) simp
    with less.prems True cov show ?thesis by auto
  next
    case False
    then obtain x where x: "x \<in> ones" "x \<notin> covered" by auto
    with cover obtain g where g: "g \<in> set cands" "x \<in> cells g" by blast
    then have "cands \<noteq> []" by auto
    from py_max_result [OF this, of "\<lambda>g. card (cells g \<inter> (ones - covered))"]
    obtain best where best: "py_max (\<lambda>g. card (cells g \<inter> (ones - covered))) cands = Inr best"
      "best \<in> set cands"
      "\<forall>y \<in> set cands. card (cells y \<inter> (ones - covered)) \<le> card (cells best \<inter> (ones - covered))"
      by blast
    have "finite (cells g \<inter> (ones - covered))" using assms(1) by simp
    moreover have "x \<in> cells g \<inter> (ones - covered)" using x g by simp
    ultimately have "0 < card (cells g \<inter> (ones - covered))"
      by (auto simp: card_gt_0_iff)
    with best(3) g(1) have "0 < card (cells best \<inter> (ones - covered))" by fastforce
    then have ne: "cells best \<inter> (ones - covered) \<noteq> {}" by auto
    then obtain y where y: "y \<in> ones" "y \<in> cells best" "y \<notin> covered" by auto
    from False best(1) ne have step: "greedy_loop cands ones chosen covered (ones - covered) =
        greedy_loop cands ones (chosen @ [best]) (covered \<union> cells best)
          (ones - (covered \<union> cells best))"
      by (subst greedy_loop.simps) simp
    from selector_inv_snoc [OF less.prems best(2) y]
    have inv: "selector_inv cands ones (chosen @ [best]) (covered \<union> cells best)" .
    from y have "ones - (covered \<union> cells best) \<subset> ones - covered" by blast
    with assms(1) have "card (ones - (covered \<union> cells best)) < card (ones - covered)"
      by (intro psubset_card_mono) auto
    from less.hyps [OF this inv] step show ?thesis by simp
  qed
qed

lemma fresh_cover_distinct:
  assumes "fresh_cover ones chosen"
  shows "distinct chosen"
proof -
  have ne: "chosen ! i \<noteq> chosen ! j" if "i < j" "j < length chosen" for i j
  proof
    assume e: "chosen ! i = chosen ! j"
    from assms that(2) obtain x where "x \<in> cells (chosen ! j)" "\<forall>k < j. x \<notin> cells (chosen ! k)"
      unfolding fresh_cover_def by blast
    with that(1) e show False by auto
  qed
  show ?thesis
    unfolding distinct_conv_nth
  proof (intro allI impI)
    fix i j assume "i < length chosen" "j < length chosen" "i \<noteq> j"
    then consider "i < j" | "j < i" by linarith
    then show "chosen ! i \<noteq> chosen ! j"
    proof cases
      case 1
      then show ?thesis using \<open>j < length chosen\<close> by (rule ne)
    next
      case 2
      then have "chosen ! j \<noteq> chosen ! i" using \<open>i < length chosen\<close> by (rule ne)
      then show ?thesis by simp
    qed
  qed
qed

lemma fresh_cover_length:
  assumes "finite ones" and "fresh_cover ones chosen"
  shows "length chosen \<le> card ones"
proof -
  from assms(2) have "\<forall>i \<in> {..< length chosen}. \<exists>x. x \<in> ones \<and> x \<in> cells (chosen ! i) \<and>
      (\<forall>j < i. x \<notin> cells (chosen ! j))"
    unfolding fresh_cover_def by blast
  then obtain f where f: "\<forall>i \<in> {..< length chosen}. f i \<in> ones \<and> f i \<in> cells (chosen ! i) \<and>
      (\<forall>j < i. f i \<notin> cells (chosen ! j))"
    by (rule bchoice [THEN exE])
  have "inj_on f {..< length chosen}"
  proof (rule inj_onI)
    fix i j assume i: "i \<in> {..< length chosen}" and j: "j \<in> {..< length chosen}" and e: "f i = f j"
    show "i = j"
    proof (rule ccontr)
      assume "i \<noteq> j"
      then consider "i < j" | "j < i" by linarith
      then show False
      proof cases
        case 1
        with f j have "f j \<notin> cells (chosen ! i)" by blast
        moreover from f i have "f i \<in> cells (chosen ! i)" by blast
        ultimately show False using e by simp
      next
        case 2
        with f i have "f i \<notin> cells (chosen ! j)" by blast
        moreover from f j have "f j \<in> cells (chosen ! j)" by blast
        ultimately show False using e by simp
      qed
    qed
  qed
  moreover from f have "f ` {..< length chosen} \<subseteq> ones" by blast
  ultimately have "card {..< length chosen} \<le> card ones"
    using assms(1) by (rule card_inj_on_le)
  then show ?thesis by simp
qed

subsection \<open>The selector as a whole\<close>

lemma select_result:
  assumes it: "set_iteration iter"
    and grid: "ones \<subseteq> {0 ..< nrows} \<times> {0 ..< ncols}"
  shows "\<exists>chosen. select_group_rectangles iter nrows ncols ones = Some (Inr chosen) \<and>
           (ones = {} \<longrightarrow> chosen = []) \<and>
           \<Union> (cells ` set chosen) = ones \<and>
           fresh_cover ones chosen \<and>
           (\<forall>g \<in> set chosen.
              rect_cells (r0 g) (rows g) (c0 g) (cols g) nrows ncols = Inr (cells g) \<and>
              cells g \<subseteq> ones \<and> (\<exists>k. rows g = 2 ^ k) \<and> (\<exists>k. cols g = 2 ^ k))"
proof (cases "ones = {}")
  case True
  then show ?thesis
    by (simp add: select_group_rectangles_def fresh_cover_Nil)
next
  case False
  have fin: "finite ones" using grid by (rule finite_subset) simp
  from all_rects_placements [of nrows ncols] obtain rects where
    rects: "all_rects nrows ncols = Some (Inr rects)"
    and set_rects: "set rects = {(r0', rows', c0', cols').
                    (\<exists>k. rows' = 2 ^ k) \<and> rows' \<le> nrows \<and> (\<exists>k. cols' = 2 ^ k) \<and> cols' \<le> ncols \<and>
                    0 \<le> r0' \<and> r0' < nrows \<and> 0 \<le> c0' \<and> c0' < ncols}"
    by blast
  have "\<forall>(a, b, c, d) \<in> set rects. 0 \<le> a \<and> a < nrows \<and> 0 \<le> c \<and> c < ncols"
    unfolding set_rects by blast
  from candidates_of_total [OF this, of ones] obtain cands where
    cands: "candidates_of rects nrows ncols ones = Inr cands" by blast
  have sound: "rect_cells (r0 g) (rows g) (c0 g) (cols g) nrows ncols = Inr (cells g) \<and>
      cells g \<subseteq> ones \<and> (\<exists>k. rows g = 2 ^ k) \<and> (\<exists>k. cols g = 2 ^ k)"
    if "g \<in> set cands" for g
  proof -
    from candidates_of_sound [OF cands that]
    have "(r0 g, rows g, c0 g, cols g) \<in> set rects"
      and "rect_cells (r0 g) (rows g) (c0 g) (cols g) nrows ncols = Inr (cells g)"
      and "cells g \<subseteq> ones" by blast+
    then show ?thesis unfolding set_rects by blast
  qed
  have cover: "\<forall>x \<in> ones. \<exists>g \<in> set cands. x \<in> cells g"
  proof
    fix x assume x: "x \<in> ones"
    obtain r c where rc: "x = (r, c)" by (cases x) auto
    with x grid have b: "0 \<le> r" "r < nrows" "0 \<le> c" "c < ncols" by auto
    have "(1 :: int) = 2 ^ 0" by simp
    then have p: "\<exists>k. (1 :: int) = 2 ^ k" by (rule exI)
    from b have "1 \<le> nrows" "1 \<le> ncols" by simp_all
    with b p have m: "(r, 1, c, 1) \<in> set rects" unfolding set_rects by blast
    have "{(r, c)} \<subseteq> ones" using x rc by simp
    from candidates_of_complete [OF cands m rect_cells_unit [OF b] _ this]
    have "\<lparr>r0 = r, rows = 1, c0 = c, cols = 1, cells = {(r, c)}\<rparr> \<in> set cands" by simp
    moreover have "x \<in> cells \<lparr>r0 = r, rows = 1, c0 = c, cols = 1, cells = {(r, c)}\<rparr>"
      using rc by simp
    ultimately show "\<exists>g \<in> set cands. x \<in> cells g" by blast
  qed
  have "selector_inv cands ones [] {}"
    by (simp add: selector_inv_def fresh_cover_Nil)
  from essential_loop_result [OF it fin this] obtain chosen1 covered1 where
    ess: "essential_loop iter cands ones [] {} = Some (chosen1, covered1)"
    and inv1: "selector_inv cands ones chosen1 covered1" by blast
  from greedy_loop_result [OF fin cover inv1] obtain chosen where
    gr: "greedy_loop cands ones chosen1 covered1 (ones - covered1) = Some (Inr chosen)"
    and inv: "selector_inv cands ones chosen (\<Union> (cells ` set chosen))"
    and full: "ones \<subseteq> \<Union> (cells ` set chosen)" by blast
  from inv have sub: "set chosen \<subseteq> set cands" and fresh: "fresh_cover ones chosen"
    by (simp_all add: selector_inv_def)
  have props: "\<forall>g \<in> set chosen.
              rect_cells (r0 g) (rows g) (c0 g) (cols g) nrows ncols = Inr (cells g) \<and>
              cells g \<subseteq> ones \<and> (\<exists>k. rows g = 2 ^ k) \<and> (\<exists>k. cols g = 2 ^ k)"
    using sub sound by blast
  then have "\<Union> (cells ` set chosen) \<subseteq> ones" by blast
  with full have un: "\<Union> (cells ` set chosen) = ones" by blast
  have sel: "select_group_rectangles iter nrows ncols ones = Some (Inr chosen)"
    using False rects cands ess gr by (simp add: select_group_rectangles_def)
  from sel un fresh props False show ?thesis by blast
qed

text \<open>
  Claim C1. For a grid of \<open>map_dimensions\<close> and a set of 1-cells inside it, whatever
  the iteration order of the set: \<open>select_group_rectangles\<close> returns a list of groups,
  the union of their cell sets is exactly the set of 1-cells, each group's cell set is
  the wrap-around coverage \<open>rect_cells\<close> of its placement and lies inside the 1-cells,
  and its height and width are powers of two; for no 1-cells the list is empty.
\<close>

theorem select_group_rectangles_cover:
  assumes "set_iteration iter"
    and "map_dimensions n = Inr (nrows, ncols)"
    and "ones_cells \<subseteq> {0 ..< nrows} \<times> {0 ..< ncols}"
  shows "\<exists>chosen. select_group_rectangles iter nrows ncols ones_cells = Some (Inr chosen) \<and>
           (ones_cells = {} \<longrightarrow> chosen = []) \<and>
           \<Union> (cells ` set chosen) = ones_cells \<and>
           (\<forall>g \<in> set chosen.
              rect_cells (r0 g) (rows g) (c0 g) (cols g) nrows ncols = Inr (cells g) \<and>
              cells g \<subseteq> ones_cells \<and> (\<exists>k. rows g = 2 ^ k) \<and> (\<exists>k. cols g = 2 ^ k))"
  using select_result [OF assms(1,3)] by blast

theorem select_group_rectangles_cover_witness:
  "set_iteration (sorted_list_of_set :: cell set \<Rightarrow> cell list) \<and>
   map_dimensions 2 = Inr (2, 2) \<and>
   {(0, 0), (1, 1)} \<subseteq> {0 ..< (2 :: int)} \<times> {0 ..< (2 :: int)} \<and>
   (\<exists>chosen. select_group_rectangles sorted_list_of_set 2 2 {(0, 0), (1, 1)} = Some (Inr chosen) \<and>
           (({(0, 0), (1, 1)} :: cell set) = {} \<longrightarrow> chosen = []) \<and>
           \<Union> (cells ` set chosen) = {(0, 0), (1, 1)} \<and>
           (\<forall>g \<in> set chosen.
              rect_cells (r0 g) (rows g) (c0 g) (cols g) 2 2 = Inr (cells g) \<and>
              cells g \<subseteq> {(0, 0), (1, 1)} \<and> (\<exists>k. rows g = 2 ^ k) \<and> (\<exists>k. cols g = 2 ^ k)))"
proof -
  have h1: "set_iteration (sorted_list_of_set :: cell set \<Rightarrow> cell list)"
    by (rule set_iteration_sorted_list_of_set)
  have h2: "map_dimensions 2 = Inr (2, 2)" by (simp add: map_dimensions_def)
  have h3: "{(0, 0), (1, 1)} \<subseteq> {0 ..< (2 :: int)} \<times> {0 ..< (2 :: int)}" by simp
  show ?thesis
    by (rule conjI [OF h1 conjI [OF h2 conjI [OF h3 select_group_rectangles_cover [OF h1 h2 h3]]]])
qed

text \<open>
  Claim C10. For every grid and every set of 1-cells inside it, each group of the
  returned list covers a 1-cell that no group before it covers; so the list has no
  repeated group and is no longer than the number of 1-cells.
\<close>

theorem select_group_rectangles_fresh:
  assumes "set_iteration iter"
    and "ones_cells \<subseteq> {0 ..< nrows} \<times> {0 ..< ncols}"
  shows "\<exists>chosen. select_group_rectangles iter nrows ncols ones_cells = Some (Inr chosen) \<and>
           (\<forall>i < length chosen. \<exists>x \<in> ones_cells.
              x \<in> cells (chosen ! i) \<and> (\<forall>j < i. x \<notin> cells (chosen ! j))) \<and>
           distinct chosen \<and> length chosen \<le> card ones_cells"
proof -
  have fin: "finite ones_cells" using assms(2) by (rule finite_subset) simp
  from select_result [OF assms] obtain chosen where
    sel: "select_group_rectangles iter nrows ncols ones_cells = Some (Inr chosen)"
    and fresh: "fresh_cover ones_cells chosen" by blast
  from fresh have "\<forall>i < length chosen. \<exists>x \<in> ones_cells.
              x \<in> cells (chosen ! i) \<and> (\<forall>j < i. x \<notin> cells (chosen ! j))"
    by (simp add: fresh_cover_def)
  with sel fresh_cover_distinct [OF fresh] fresh_cover_length [OF fin fresh]
  show ?thesis by blast
qed

theorem select_group_rectangles_fresh_witness:
  "set_iteration (sorted_list_of_set :: cell set \<Rightarrow> cell list) \<and>
   {(0, 0), (1, 1), (1, 2), (0, 3)} \<subseteq> {0 ..< (2 :: int)} \<times> {0 ..< (4 :: int)} \<and>
   (\<exists>chosen. select_group_rectangles sorted_list_of_set 2 4 {(0, 0), (1, 1), (1, 2), (0, 3)} =
        Some (Inr chosen) \<and>
      (\<forall>i < length chosen. \<exists>x \<in> {(0, 0), (1, 1), (1, 2), (0, 3)}.
         x \<in> cells (chosen ! i) \<and> (\<forall>j < i. x \<notin> cells (chosen ! j))) \<and>
      distinct chosen \<and> length chosen \<le> card ({(0, 0), (1, 1), (1, 2), (0, 3)} :: cell set))"
proof -
  have h1: "set_iteration (sorted_list_of_set :: cell set \<Rightarrow> cell list)"
    by (rule set_iteration_sorted_list_of_set)
  have h2: "{(0, 0), (1, 1), (1, 2), (0, 3)} \<subseteq> {0 ..< (2 :: int)} \<times> {0 ..< (4 :: int)}" by simp
  show ?thesis
    by (rule conjI [OF h1 conjI [OF h2 select_group_rectangles_fresh [OF h1 h2]]])
qed


section \<open>From a product term to its group\<close>

lemma pattern_check_4:
  "\<forall>ori \<in> set [True, False]. \<forall>p \<in> set (List.n_lists 4 [None, Some 0, Some 1]).
    (case map_minterms_to_cells 4 (pattern_minterms p) ori of
       Inl e \<Rightarrow> False
     | Inr cs \<Rightarrow>
        (case contiguous_span (fst ` cs) 4 of
           Inl e \<Rightarrow> False
         | Inr (a, b) \<Rightarrow>
            (case contiguous_span (snd ` cs) 4 of
               Inl e \<Rightarrow> False
             | Inr (c, d) \<Rightarrow> rect_cells a b c d 4 4 = Inr cs)))"
  by code_simp

lemma pattern_check_3:
  "\<forall>ori \<in> set [True, False]. \<forall>p \<in> set (List.n_lists 3 [None, Some 0, Some 1]).
    (case map_minterms_to_cells 3 (pattern_minterms p) ori of
       Inl e \<Rightarrow> False
     | Inr cs \<Rightarrow>
        (case contiguous_span (fst ` cs) 2 of
           Inl e \<Rightarrow> False
         | Inr (a, b) \<Rightarrow>
            (case contiguous_span (snd ` cs) 4 of
               Inl e \<Rightarrow> False
             | Inr (c, d) \<Rightarrow> rect_cells a b c d 2 4 = Inr cs)))"
  by code_simp

lemma pattern_check_2:
  "\<forall>ori \<in> set [True, False]. \<forall>p \<in> set (List.n_lists 2 [None, Some 0, Some 1]).
    (case map_minterms_to_cells 2 (pattern_minterms p) ori of
       Inl e \<Rightarrow> False
     | Inr cs \<Rightarrow>
        (case contiguous_span (fst ` cs) 2 of
           Inl e \<Rightarrow> False
         | Inr (a, b) \<Rightarrow>
            (case contiguous_span (snd ` cs) 2 of
               Inl e \<Rightarrow> False
             | Inr (c, d) \<Rightarrow> rect_cells a b c d 2 2 = Inr cs)))"
  by code_simp


lemma fold_update_other:
  "v \<notin> set ks \<Longrightarrow> fold (\<lambda>(var, bit') m. m(var \<mapsto> bit')) (zip ks bs) m v = m v"
  for m :: "symbol \<rightharpoonup> int"
proof (induction ks arbitrary: bs m)
  case Nil
  then show ?case by simp
next
  case (Cons k ks)
  then show ?case by (cases bs) auto
qed

lemma assignment_fill:
  fixes m :: "symbol \<rightharpoonup> int"
  assumes "distinct vs" and "length bits = length (filter (\<lambda>v. m v = None) vs)"
  shows "map (fold (\<lambda>(var, bit') m. m(var \<mapsto> bit')) (zip (filter (\<lambda>v. m v = None) vs) bits) m) vs =
         map Some (fill_pattern (map m vs) bits)"
  using assms
proof (induction vs arbitrary: m bits)
  case Nil
  then show ?case by simp
next
  case (Cons v vs)
  from Cons.prems(1) have nv: "v \<notin> set vs" and d: "distinct vs" by simp_all
  show ?case
  proof (cases "m v")
    case (Some b)
    then have f: "filter (\<lambda>v. m v = None) (v # vs) = filter (\<lambda>v. m v = None) vs" by simp
    from nv have "v \<notin> set (filter (\<lambda>v. m v = None) vs)" by simp
    from fold_update_other [OF this]
    have h: "fold (\<lambda>(var, bit') m. m(var \<mapsto> bit')) (zip (filter (\<lambda>v. m v = None) vs) bits) m v = Some b"
      using Some by simp
    from Cons.prems(2) f have "length bits = length (filter (\<lambda>v. m v = None) vs)" by simp
    from Cons.IH [OF d this] h Some show ?thesis unfolding f by (simp del: fun_upd_apply)
  next
    case None
    then have f: "filter (\<lambda>v. m v = None) (v # vs) = v # filter (\<lambda>v. m v = None) vs" by simp
    with Cons.prems(2) obtain b bits' where bits: "bits = b # bits'"
      and l: "length bits' = length (filter (\<lambda>v. m v = None) vs)"
      by (cases bits) auto
    define m' where "m' = m(v \<mapsto> b)"
    have same: "m' u = m u" if "u \<in> set vs" for u
      using that nv by (auto simp: m'_def)
    then have ff: "filter (\<lambda>v. m' v = None) vs = filter (\<lambda>v. m v = None) vs"
      by (intro filter_cong) auto
    from same have mm: "map m' vs = map m vs" by (intro map_cong) auto
    from nv have "v \<notin> set (filter (\<lambda>v. m v = None) vs)" by simp
    from fold_update_other [OF this, of bits' m']
    have h: "fold (\<lambda>(var, bit') m. m(var \<mapsto> bit')) (zip (filter (\<lambda>v. m v = None) vs) bits') m' v = Some b"
      by (simp add: m'_def)
    from l ff have "length bits' = length (filter (\<lambda>v. m' v = None) vs)" by simp
    from Cons.IH [OF d this]
    have "map (fold (\<lambda>(var, bit') m. m(var \<mapsto> bit')) (zip (filter (\<lambda>v. m v = None) vs) bits') m') vs =
         map Some (fill_pattern (map m vs) bits')"
      unfolding ff mm .
    with h None show ?thesis unfolding f bits by (simp add: m'_def del: fun_upd_apply)
  qed
qed

lemma index_of_assignment_bits:
  "map assignment vs = map Some xs \<Longrightarrow>
   index_of_assignment assignment vs idx = Inr (index_of_bits xs idx)"
proof (induction vs arbitrary: xs idx)
  case Nil
  then show ?case by (simp add: index_of_bits_def)
next
  case (Cons v vs)
  then obtain x xs' where xs: "xs = x # xs'" "assignment v = Some x" "map assignment vs = map Some xs'"
    by (cases xs) auto
  from Cons.IH [OF xs(3)] xs show ?case by (simp add: index_of_bits_def)
qed

lemma minterms_of_bits_pattern:
  assumes "distinct vs" and "\<forall>bits \<in> set bitss. length bits = length (filter (\<lambda>v. m v = None) vs)"
  shows "minterms_of_bits bitss m (filter (\<lambda>v. m v = None) vs) vs =
         Inr (map (\<lambda>bits. index_of_bits (fill_pattern (map m vs) bits) 0) bitss)"
  using assms(2)
proof (induction bitss)
  case Nil
  then show ?case by simp
next
  case (Cons bits bitss)
  then have l: "length bits = length (filter (\<lambda>v. m v = None) vs)" by simp
  from index_of_assignment_bits [OF assignment_fill [OF assms(1) l]] Cons show ?case
    by simp
qed

lemma length_product_bits: "bits \<in> set (product_bits k) \<Longrightarrow> length bits = k"
  by (induction k arbitrary: bits) auto

lemma fixed_of_literals:
  assumes "\<forall>f \<in> set factors. (\<exists>s. f = Symbol s) \<or> (\<exists>s. f = SNot (Symbol s))"
    and "\<forall>v. m v = None \<or> m v = Some 0 \<or> m v = Some 1"
  shows "\<exists>fx. fixed_of factors m = Inr fx \<and> (\<forall>v. fx v = None \<or> fx v = Some 0 \<or> fx v = Some 1)"
  using assms
proof (induction factors arbitrary: m)
  case Nil
  then show ?case by simp
next
  case (Cons f factors)
  from Cons.prems(1) have rest: "\<forall>f \<in> set factors. (\<exists>s. f = Symbol s) \<or> (\<exists>s. f = SNot (Symbol s))"
    by simp
  from Cons.prems(1) consider s where "f = Symbol s" | s where "f = SNot (Symbol s)" by auto
  then show ?case
  proof cases
    case 1
    have "\<exists>fx. fixed_of factors (m(s \<mapsto> 1)) = Inr fx \<and>
        (\<forall>v. fx v = None \<or> fx v = Some 0 \<or> fx v = Some 1)"
      by (rule Cons.IH [OF rest]) (use Cons.prems(2) in simp)
    with 1 show ?thesis by simp
  next
    case 2
    have "\<exists>fx. fixed_of factors (m(s \<mapsto> 0)) = Inr fx \<and>
        (\<forall>v. fx v = None \<or> fx v = Some 0 \<or> fx v = Some 1)"
      by (rule Cons.IH [OF rest]) (use Cons.prems(2) in simp)
    with 2 show ?thesis by simp
  qed
qed

lemma term_to_minterms_pattern:
  assumes "distinct vs"
    and "(\<exists>s. trm = Symbol s) \<or> (\<exists>s. trm = SNot (Symbol s)) \<or>
         (\<exists>lits. trm = SAnd lits \<and> (\<forall>f \<in> set lits. (\<exists>s. f = Symbol s) \<or> (\<exists>s. f = SNot (Symbol s))))"
  shows "\<exists>p. length p = length vs \<and> set p \<subseteq> {None, Some 0, Some 1} \<and>
             term_to_minterms trm vs = Inr (pattern_minterms p)"
proof -
  define factors where "factors = (case trm of SAnd args \<Rightarrow> args | _ \<Rightarrow> [trm])"
  from assms(2) have "\<forall>f \<in> set factors. (\<exists>s. f = Symbol s) \<or> (\<exists>s. f = SNot (Symbol s))"
    unfolding factors_def by auto
  from fixed_of_literals [OF this, of Map.empty] obtain fx where
    fx: "fixed_of factors Map.empty = Inr fx" "\<forall>v. fx v = None \<or> fx v = Some 0 \<or> fx v = Some 1"
    by auto
  define p where "p = map fx vs"
  have "\<forall>bits \<in> set (product_bits (length (filter (\<lambda>v. fx v = None) vs))).
      length bits = length (filter (\<lambda>v. fx v = None) vs)"
    using length_product_bits by blast
  from minterms_of_bits_pattern [OF assms(1) this]
  have t: "term_to_minterms trm vs =
      Inr (map (\<lambda>bits. index_of_bits (fill_pattern (map fx vs) bits) 0)
             (product_bits (length (filter (\<lambda>v. fx v = None) vs))))"
    unfolding term_to_minterms_def Let_def factors_def [symmetric] fx(1) by simp
  have "length (filter (\<lambda>x. x = None) (map fx vs)) = length (filter (\<lambda>v. fx v = None) vs)"
    by (simp add: filter_map comp_def)
  then have "pattern_minterms p =
      map (\<lambda>bits. index_of_bits (fill_pattern (map fx vs) bits) 0)
             (product_bits (length (filter (\<lambda>v. fx v = None) vs)))"
    unfolding pattern_minterms_def p_def by (simp only:)
  with t have "term_to_minterms trm vs = Inr (pattern_minterms p)" by simp
  moreover have "length p = length vs" by (simp add: p_def)
  moreover have "set p \<subseteq> {None, Some 0, Some 1}"
  proof
    fix x assume "x \<in> set p"
    then obtain v where "x = fx v" by (auto simp: p_def)
    with fx(2) show "x \<in> {None, Some 0, Some 1}" by (metis insertCI)
  qed
  ultimately show ?thesis by blast
qed


lemma group_of_term_result:
  assumes "term_to_minterms trm vs = Inr mins"
    and "map_minterms_to_cells n mins ori = Inr cs"
    and "contiguous_span (fst ` cs) nrows = Inr (a, b)"
    and "contiguous_span (snd ` cs) ncols = Inr (c, d)"
  shows "group_of_term trm vs ori n nrows ncols =
           Inr \<lparr>r0 = a, rows = b, c0 = c, cols = d, cells = cs\<rparr>"
  by (simp add: group_of_term_def assms)

lemma nested_result_cases:
  assumes "case M of
             Inl e \<Rightarrow> False
           | Inr cs \<Rightarrow>
              (case R cs of
                 Inl e \<Rightarrow> False
               | Inr (a, b) \<Rightarrow>
                  (case C cs of
                     Inl e \<Rightarrow> False
                   | Inr (c, d) \<Rightarrow> Q cs a b c d))"
  shows "\<exists>cs a b c d. M = Inr cs \<and> R cs = Inr (a, b) \<and> C cs = Inr (c, d) \<and> Q cs a b c d"
proof -
  from assms obtain cs where 1: "M = Inr cs"
    and r: "case R cs of
              Inl e \<Rightarrow> False
            | Inr (a, b) \<Rightarrow> (case C cs of Inl e \<Rightarrow> False | Inr (c, d) \<Rightarrow> Q cs a b c d)"
    by (cases M) auto
  from r obtain a b where 2: "R cs = Inr (a, b)"
    and c: "case C cs of Inl e \<Rightarrow> False | Inr (c, d) \<Rightarrow> Q cs a b c d"
    by (cases "R cs") auto
  from c obtain c d where "C cs = Inr (c, d)" "Q cs a b c d"
    by (cases "C cs") auto
  with 1 2 show ?thesis by blast
qed

lemma pattern_group:
  assumes dims: "map_dimensions n = Inr (nrows, ncols)"
    and p: "int (length p) = n" "set p \<subseteq> {None, Some 0, Some 1}"
  shows "\<exists>cs a b c d. map_minterms_to_cells n (pattern_minterms p) ori = Inr cs \<and>
           contiguous_span (fst ` cs) nrows = Inr (a, b) \<and>
           contiguous_span (snd ` cs) ncols = Inr (c, d) \<and>
           rect_cells a b c d nrows ncols = Inr cs"
proof -
  have ori: "ori \<in> set [True, False]" by simp
  have mem: "p \<in> set (List.n_lists k [None, Some 0, Some 1])" if "length p = k" for k
    using that p(2) by (auto simp: set_n_lists)
  from map_dimensions_cases [OF dims]
  consider (two) "n = 2" "nrows = 2" "ncols = 2"
    | (three) "n = 3" "nrows = 2" "ncols = 4"
    | (four) "n = 4" "nrows = 4" "ncols = 4" by blast
  then show ?thesis
  proof cases
    case two
    with p(1) have "length p = 2" by simp
    from pattern_check_2 [rule_format, OF ori mem [OF this]] show ?thesis
      unfolding two by (rule nested_result_cases)
  next
    case three
    with p(1) have "length p = 3" by simp
    from pattern_check_3 [rule_format, OF ori mem [OF this]] show ?thesis
      unfolding three by (rule nested_result_cases)
  next
    case four
    with p(1) have "length p = 4" by simp
    from pattern_check_4 [rule_format, OF ori mem [OF this]] show ?thesis
      unfolding four by (rule nested_result_cases)
  qed
qed

text \<open>
  For any literal or conjunction of literals: one group is returned, its cell set is
  \<open>rect_cells\<close> of its origin and spans, and is what \<open>map_minterms_to_cells\<close> makes
  of the list returned by \<open>term_to_minterms\<close>.
\<close>

lemma expression_to_groups_literals:
  assumes "distinct vars_tuple"
    and "map_dimensions (int (length vars_tuple)) = Inr (nrows, ncols)"
    and "(\<exists>s. trm = Symbol s) \<or> (\<exists>s. trm = SNot (Symbol s)) \<or>
         (\<exists>lits. trm = SAnd lits \<and> (\<forall>f \<in> set lits. (\<exists>s. f = Symbol s) \<or> (\<exists>s. f = SNot (Symbol s))))"
  shows "\<exists>g mins. expression_to_groups trm vars_tuple orient_cols_is_ab = Inr [g] \<and>
           term_to_minterms trm vars_tuple = Inr mins \<and>
           rect_cells (r0 g) (rows g) (c0 g) (cols g) nrows ncols = Inr (cells g) \<and>
           map_minterms_to_cells (int (length vars_tuple)) mins orient_cols_is_ab = Inr (cells g)"
proof -
  from term_to_minterms_pattern [OF assms(1,3)] obtain p where
    p: "length p = length vars_tuple" "set p \<subseteq> {None, Some 0, Some 1}"
    and t: "term_to_minterms trm vars_tuple = Inr (pattern_minterms p)" by blast
  from p(1) have "int (length p) = int (length vars_tuple)" by simp
  from pattern_group [OF assms(2) this p(2), of orient_cols_is_ab] obtain cs a b c d where
    m: "map_minterms_to_cells (int (length vars_tuple)) (pattern_minterms p) orient_cols_is_ab = Inr cs"
    and sr: "contiguous_span (fst ` cs) nrows = Inr (a, b)"
    and sc: "contiguous_span (snd ` cs) ncols = Inr (c, d)"
    and rc: "rect_cells a b c d nrows ncols = Inr cs" by blast
  define g where "g = \<lparr>r0 = a, rows = b, c0 = c, cols = d, cells = cs\<rparr>"
  have gt: "group_of_term trm vars_tuple orient_cols_is_ab (int (length vars_tuple)) nrows ncols = Inr g"
    unfolding g_def by (rule group_of_term_result [OF t m sr sc])
  have tms: "(case trm of SOr args \<Rightarrow> args | _ \<Rightarrow> [trm]) = [trm]"
    using assms(3) by auto
  have cst: "trm \<noteq> PyBool False" "trm \<noteq> PyNone" "trm \<noteq> SFalse" "trm \<noteq> PyBool True"
    using assms(3) by auto
  have "expression_to_groups trm vars_tuple orient_cols_is_ab = Inr [g]"
    unfolding expression_to_groups_def Let_def tms
    using cst assms(2) gt by simp
  moreover have "rect_cells (r0 g) (rows g) (c0 g) (cols g) nrows ncols = Inr (cells g)"
    using rc by (simp add: g_def)
  moreover have "map_minterms_to_cells (int (length vars_tuple)) (pattern_minterms p) orient_cols_is_ab =
      Inr (cells g)"
    using m by (simp add: g_def)
  ultimately show ?thesis using t by blast
qed

section \<open>Minterms to expression and back\<close>

lemma product_bits_not_Nil: "product_bits k \<noteq> []"
  by (induction k) auto

text \<open>
  Claim C4 at the empty list of minterms: \<open>minterms_to_expression\<close> returns Python's
  \<open>False\<close>, and \<open>truth_minterms\<close> raises AttributeError on it at the first
  assignment, for every tuple of variables, where the claim has the result \<open>[]\<close>.
\<close>

theorem round_trip_empty_raises:
  "minterms_to_expression [] vars_tuple = PyBool False \<and>
   truth_minterms (minterms_to_expression [] vars_tuple) vars_tuple = Inl AttributeError"
proof -
  have e: "minterms_to_expression [] vars_tuple = PyBool False"
    by (simp add: minterms_to_expression_def)
  obtain bits rest where p: "product_bits (length vars_tuple) = bits # rest"
    using product_bits_not_Nil [of "length vars_tuple"]
    by (cases "product_bits (length vars_tuple)") auto
  have "truth_minterms (PyBool False) vars_tuple = Inl AttributeError"
    by (simp add: truth_minterms_def p xreplace_bool_def)
  with e show ?thesis by simp
qed

subsection \<open>The round trip of a non-empty list\<close>

text \<open>
  The assignments of \<open>itertools.product\<close> are the bit lists of the indices in
  ascending order; under the assignment of index \<open>i\<close> the clause of a minterm \<open>m\<close>
  is true exactly when \<open>i = m\<close>.
\<close>

lemma drop_bit_and_1: "drop_bit q m AND 1 = of_bool (bit m q)" for m :: int
  by (simp add: and_one_eq bit_iff_odd_drop_bit mod_2_eq_odd)

lemma bits_of_Suc: "bits_of (Suc n) m = (drop_bit n m AND 1) # bits_of n m"
proof -
  have "[0 ..< Suc n] = 0 # map Suc [0 ..< n]"
    by (simp add: upt_conv_Cons map_Suc_upt del: upt_Suc)
  then show ?thesis
    by (simp add: bits_of_def comp_def del: upt_Suc)
qed

lemma bits_of_low:
  assumes "0 \<le> m" "m < 2 ^ n"
  shows "bits_of (Suc n) m = 0 # bits_of n m"
proof -
  from assms have "drop_bit n m = 0" by (simp add: drop_bit_eq_div)
  then show ?thesis by (simp add: bits_of_Suc)
qed

lemma bit_add_power:
  fixes j :: int
  assumes "q < n"
  shows "bit (2 ^ n + j) q = bit j q"
proof -
  have "take_bit n (2 ^ n + j) = take_bit n j" by (simp add: take_bit_eq_mod)
  then have "bit (take_bit n (2 ^ n + j)) q = bit (take_bit n j) q" by simp
  with assms show ?thesis by (simp add: bit_take_bit_iff)
qed

lemma bits_of_high:
  assumes "0 \<le> j" "j < 2 ^ n"
  shows "bits_of (Suc n) (2 ^ n + j) = 1 # bits_of n j"
proof -
  from assms have "(2 ^ n + j) div 2 ^ n = 1" by (simp add: div_add_self1 div_pos_pos_trivial)
  then have "drop_bit n (2 ^ n + j) = 1" by (simp add: drop_bit_eq_div)
  moreover have "bits_of n (2 ^ n + j) = bits_of n j"
    unfolding bits_of_def by (simp add: drop_bit_and_1 bit_add_power)
  ultimately show ?thesis by (simp add: bits_of_Suc)
qed

lemma product_bits_bits_of:
  "product_bits n = map (\<lambda>i. bits_of n (int i)) [0 ..< 2 ^ n]"
proof (induction n)
  case 0
  then show ?case by (simp add: bits_of_def)
next
  case (Suc n)
  have split: "[0 ..< 2 ^ Suc n] = [0 ..< 2 ^ n] @ map (\<lambda>i. 2 ^ n + i) [0 ..< 2 ^ n]"
  proof -
    have "[0 ..< 2 ^ Suc n] = [0 ..< 2 ^ n] @ [2 ^ n ..< 2 ^ n + 2 ^ n]"
      by (simp add: upt_add_eq_append [symmetric] mult_2)
    moreover have "[2 ^ n ..< 2 ^ n + 2 ^ n] = map (\<lambda>i. 2 ^ n + i) [0 ..< 2 ^ n]"
      by (simp add: map_add_upt add.commute)
    ultimately show ?thesis by simp
  qed
  have low: "map (\<lambda>i. bits_of (Suc n) (int i)) [0 ..< 2 ^ n] = map ((#) 0) (product_bits n)"
    unfolding Suc by (simp add: bits_of_low)
  have high: "map (\<lambda>i. bits_of (Suc n) (int (2 ^ n + i))) [0 ..< 2 ^ n] = map ((#) 1) (product_bits n)"
    unfolding Suc by (simp add: bits_of_high)
  have "product_bits (Suc n) = map ((#) 0) (product_bits n) @ map ((#) 1) (product_bits n)"
    by simp
  with low high show ?case unfolding split by (simp add: comp_def)
qed

lemma fold_subs_other:
  fixes m :: "symbol \<rightharpoonup> bool"
  shows "v \<notin> set ks \<Longrightarrow>
    fold (\<lambda>(var, bit') m. m(var \<mapsto> (bit' \<noteq> 0))) (zip ks bs) m v = m v"
proof (induction ks arbitrary: bs m)
  case Nil
  then show ?case by simp
next
  case (Cons k ks)
  then show ?case by (cases bs) auto
qed

lemma fold_subs_nth:
  fixes m :: "symbol \<rightharpoonup> bool" and bs :: "int list"
  assumes "distinct vs" and "length bs = length vs" and "k < length vs"
  shows "fold (\<lambda>(var, bit') m. m(var \<mapsto> (bit' \<noteq> 0))) (zip vs bs) m (vs ! k) = Some (bs ! k \<noteq> 0)"
  using assms
proof (induction vs arbitrary: bs m k)
  case Nil
  then show ?case by simp
next
  case (Cons v vs)
  then obtain b bs' where bs: "bs = b # bs'" "length bs' = length vs" by (cases bs) auto
  from Cons.prems(1) have nv: "v \<notin> set vs" and d: "distinct vs" by simp_all
  show ?case
  proof (cases k)
    case 0
    from fold_subs_other [OF nv, of bs' "m(v \<mapsto> (b \<noteq> 0))"] show ?thesis
      unfolding bs 0 by (simp del: fun_upd_apply) simp
  next
    case (Suc k')
    with Cons.prems(3) have "k' < length vs" by simp
    from Cons.IH [OF d bs(2) this, of "m(v \<mapsto> (b \<noteq> 0))"] show ?thesis
      unfolding bs Suc by (simp del: fun_upd_apply)
  qed
qed

lemma sympy_And_value:
  assumes "map (sympy_value subs) es = map Some bs"
  shows "sympy_value subs (sympy_And es) = Some (\<forall>b \<in> set bs. b)"
proof (cases es)
  case Nil
  with assms show ?thesis by (simp add: sympy_And_def)
next
  case (Cons e es')
  show ?thesis
  proof (cases es')
    case Nil
    with Cons assms show ?thesis by (auto simp: sympy_And_def)
  next
    case (Cons e' es'')
    with \<open>es = e # es'\<close> have "sympy_And es = SAnd es" by (simp add: sympy_And_def)
    moreover have "sympy_value subs (SAnd es) = Some (\<forall>b \<in> set bs. b)"
      using assms by (auto simp: Let_def)
    ultimately show ?thesis by simp
  qed
qed

lemma sympy_Or_value:
  assumes "map (sympy_value subs) es = map Some bs"
  shows "sympy_value subs (sympy_Or es) = Some (\<exists>b \<in> set bs. b)"
proof (cases es)
  case Nil
  with assms show ?thesis by (simp add: sympy_Or_def)
next
  case (Cons e es')
  show ?thesis
  proof (cases es')
    case Nil
    with Cons assms show ?thesis by (auto simp: sympy_Or_def)
  next
    case (Cons e' es'')
    with \<open>es = e # es'\<close> have "sympy_Or es = SOr es" by (simp add: sympy_Or_def)
    moreover have "sympy_value subs (SOr es) = Some (\<exists>b \<in> set bs. b)"
      using assms by (auto simp: Let_def)
    ultimately show ?thesis by simp
  qed
qed

lemma bits_agree_iff:
  fixes i m :: int
  assumes "0 \<le> i" "i < 2 ^ n" "0 \<le> m" "m < 2 ^ n"
  shows "(\<forall>k < n. bit i (n - 1 - k) = bit m (n - 1 - k)) \<longleftrightarrow> i = m"
proof
  assume a: "\<forall>k < n. bit i (n - 1 - k) = bit m (n - 1 - k)"
  have q: "bit i q = bit m q" if "q < n" for q
  proof -
    from that have "n - 1 - q < n" "n - 1 - (n - 1 - q) = q" by simp_all
    with a [rule_format, of "n - 1 - q"] show ?thesis by simp
  qed
  have "take_bit n i = take_bit n m"
    by (rule bit_eqI) (auto simp: bit_take_bit_iff q)
  with assms show "i = m" by (simp add: take_bit_int_eq_self)
next
  assume "i = m"
  then show "\<forall>k < n. bit i (n - 1 - k) = bit m (n - 1 - k)" by simp
qed

lemma clause_value:
  fixes bits :: "int list"
  assumes "distinct vs" and "length bits = length vs"
  shows "sympy_value (fold (\<lambda>(var, bit') m. m(var \<mapsto> (bit' \<noteq> 0))) (zip vs bits) Map.empty)
           (sympy_And (map (\<lambda>(idx, var).
                   let bit' = drop_bit (n - 1 - idx) value AND 1
                   in if bit' \<noteq> 0 then Symbol var else SNot (Symbol var))
                   (enumerate 0 vs))) =
         Some (\<forall>k < length vs. (bits ! k \<noteq> 0) = (drop_bit (n - 1 - k) value AND 1 \<noteq> 0))"
proof -
  define subs where "subs = fold (\<lambda>(var, bit') m. m(var \<mapsto> (bit' \<noteq> 0))) (zip vs bits) Map.empty"
  define lits where "lits = map (\<lambda>(idx, var).
                   let bit' = drop_bit (n - 1 - idx) value AND 1
                   in if bit' \<noteq> 0 then Symbol var else SNot (Symbol var))
                   (enumerate 0 vs)"
  define bs where "bs = map (\<lambda>k. (bits ! k \<noteq> 0) = (drop_bit (n - 1 - k) value AND 1 \<noteq> 0)) [0 ..< length vs]"
  have "map (sympy_value subs) lits = map Some bs"
  proof (rule nth_equalityI)
    show "length (map (sympy_value subs) lits) = length (map Some bs)"
      by (simp add: lits_def bs_def)
  next
    fix k assume "k < length (map (sympy_value subs) lits)"
    then have k: "k < length vs" by (simp add: lits_def)
    from fold_subs_nth [OF assms k, of Map.empty]
    have s: "subs (vs ! k) = Some (bits ! k \<noteq> 0)" by (simp add: subs_def)
    from k have "lits ! k = (if drop_bit (n - 1 - k) value AND 1 \<noteq> 0
                              then Symbol (vs ! k) else SNot (Symbol (vs ! k)))"
      by (simp add: lits_def nth_enumerate_eq Let_def)
    with s k show "map (sympy_value subs) lits ! k = map Some bs ! k"
      by (simp add: lits_def bs_def)
  qed
  from sympy_And_value [OF this]
  have "sympy_value subs (sympy_And lits) = Some (\<forall>b \<in> set bs. b)" .
  moreover have "(\<forall>b \<in> set bs. b) =
      (\<forall>k < length vs. (bits ! k \<noteq> 0) = (drop_bit (n - 1 - k) value AND 1 \<noteq> 0))"
    unfolding bs_def by auto
  ultimately show ?thesis
    unfolding subs_def lits_def by (simp only:)
qed

lemma bits_of_nth: "k < n \<Longrightarrow> bits_of n m ! k = drop_bit (n - 1 - k) m AND 1"
  by (simp add: bits_of_def)

lemma clause_value_index:
  assumes "distinct vs" and "0 \<le> i" "i < 2 ^ length vs" "0 \<le> value" "value < 2 ^ length vs"
  shows "sympy_value (fold (\<lambda>(var, bit') m. m(var \<mapsto> (bit' \<noteq> 0))) (zip vs (bits_of (length vs) i)) Map.empty)
           (sympy_And (map (\<lambda>(idx, var).
                   let bit' = drop_bit (length vs - 1 - idx) value AND 1
                   in if bit' \<noteq> 0 then Symbol var else SNot (Symbol var))
                   (enumerate 0 vs))) =
         Some (i = value)"
proof -
  have l: "length (bits_of (length vs) i) = length vs" by (simp add: bits_of_def)
  have "(\<forall>k < length vs. (bits_of (length vs) i ! k \<noteq> 0) = (drop_bit (length vs - 1 - k) value AND 1 \<noteq> 0))
      = (\<forall>k < length vs. bit i (length vs - 1 - k) = bit value (length vs - 1 - k))"
    by (simp add: bits_of_nth drop_bit_and_1)
  also have "\<dots> = (i = value)" by (rule bits_agree_iff [OF assms(2-5)])
  finally show ?thesis unfolding clause_value [OF assms(1) l] by simp
qed

lemma sympy_And_literals_not_python:
  assumes "\<forall>f \<in> set lits. (\<exists>s. f = Symbol s) \<or> (\<exists>s. f = SNot (Symbol s))"
  shows "(\<forall>b. sympy_And lits \<noteq> PyBool b) \<and> sympy_And lits \<noteq> PyNone"
proof (cases lits)
  case Nil
  then show ?thesis by (simp add: sympy_And_def)
next
  case (Cons f rest)
  show ?thesis
  proof (cases rest)
    case Nil
    with Cons assms show ?thesis by (auto simp: sympy_And_def)
  next
    case (Cons f' rest')
    with \<open>lits = f # rest\<close> show ?thesis by (simp add: sympy_And_def)
  qed
qed

lemma sympy_Or_not_python:
  assumes "\<forall>c \<in> set clauses. (\<forall>b. c \<noteq> PyBool b) \<and> c \<noteq> PyNone"
  shows "(\<forall>b. sympy_Or clauses \<noteq> PyBool b) \<and> sympy_Or clauses \<noteq> PyNone"
proof (cases clauses)
  case Nil
  then show ?thesis by (simp add: sympy_Or_def)
next
  case (Cons c rest)
  show ?thesis
  proof (cases rest)
    case Nil
    with Cons assms show ?thesis by (auto simp: sympy_Or_def)
  next
    case (Cons c' rest')
    with \<open>clauses = c # rest\<close> show ?thesis by (simp add: sympy_Or_def)
  qed
qed

lemma xreplace_bool_sympy:
  assumes "(\<forall>b. e \<noteq> PyBool b) \<and> e \<noteq> PyNone"
  shows "xreplace_bool e subs = Inr (sympy_value subs e \<noteq> Some False)"
proof (cases e)
  case (PyBool b)
  with assms show ?thesis by blast
next
  case PyNone
  with assms show ?thesis by blast
qed (simp_all add: xreplace_bool_def)

lemma truth_loop_filter:
  assumes "\<forall>(idx, bits) \<in> set ps.
     xreplace_bool e (fold (\<lambda>(var, bit') m. m(var \<mapsto> (bit' \<noteq> 0))) (zip vs bits) Map.empty) = Inr (P idx)"
  shows "truth_loop e vs ps = Inr (map (\<lambda>(idx, bits). int idx) (filter (\<lambda>(idx, bits). P idx) ps))"
  using assms
proof (induction ps)
  case Nil
  then show ?case by simp
next
  case (Cons p ps)
  obtain idx bits where p: "p = (idx, bits)" by (cases p)
  from Cons.prems p
  have h: "xreplace_bool e (fold (\<lambda>(var, bit') m. m(var \<mapsto> (bit' \<noteq> 0))) (zip vs bits) Map.empty) = Inr (P idx)"
    by (simp del: fun_upd_apply)
  from Cons.prems have "\<forall>(idx, bits) \<in> set ps.
     xreplace_bool e (fold (\<lambda>(var, bit') m. m(var \<mapsto> (bit' \<noteq> 0))) (zip vs bits) Map.empty) = Inr (P idx)"
    by (simp del: fun_upd_apply)
  from Cons.IH [OF this] h show ?case unfolding p by (simp del: fun_upd_apply)
qed

lemma sorted_list_of_filtered_indices:
  assumes "\<forall>m \<in> set minterms. 0 \<le> m \<and> m < 2 ^ n"
  shows "map int (filter (\<lambda>i. int i \<in> set minterms) [0 ..< 2 ^ n]) =
         sorted_list_of_set (set minterms)"
proof -
  define xs where "xs = map int (filter (\<lambda>i. int i \<in> set minterms) [0 ..< 2 ^ n])"
  have s: "sorted xs"
    unfolding xs_def by (simp add: sorted_map sorted_wrt_filter sorted_wrt_mono_rel [of _ "(<)"])
  have d: "distinct xs"
    unfolding xs_def by (simp add: distinct_map inj_on_def)
  have "set xs = set minterms"
  proof (intro equalityI subsetI)
    fix x assume "x \<in> set xs"
    then show "x \<in> set minterms" by (auto simp: xs_def)
  next
    fix x assume x: "x \<in> set minterms"
    with assms have "0 \<le> x" "x < 2 ^ n" by auto
    then have "nat x < 2 ^ n" "int (nat x) = x"
      by (simp_all add: nat_less_iff)
    with x have "nat x \<in> set (filter (\<lambda>i. int i \<in> set minterms) [0 ..< 2 ^ n])" by simp
    then have "int (nat x) \<in> set xs" unfolding xs_def by (simp only: set_map image_eqI)
    with \<open>int (nat x) = x\<close> show "x \<in> set xs" by simp
  qed
  then have "sorted_list_of_set (set minterms) = sorted_list_of_set (set xs)" by simp
  also have "\<dots> = xs"
    using s d by (intro sorted_list_of_set.idem_if_sorted_distinct) simp_all
  finally show ?thesis by (simp add: xs_def)
qed

text \<open>
  For distinct variables and a non-empty list of minterms in \<open>[0, 2^n - 1]\<close> the round
  trip returns the sorted list of the distinct minterms.
\<close>

lemma round_trip_nonempty:
  assumes d: "distinct vars_tuple" and ne: "minterms \<noteq> []"
    and rng: "\<forall>m \<in> set minterms. 0 \<le> m \<and> m < 2 ^ length vars_tuple"
  shows "truth_minterms (minterms_to_expression minterms vars_tuple) vars_tuple =
           Inr (sorted_list_of_set (set minterms))"
proof -
  define n where "n = length vars_tuple"
  define clause :: "int \<Rightarrow> expr" where "clause = (\<lambda>value.
      sympy_And (map (\<lambda>(idx, var).
                   let bit' = drop_bit (n - 1 - idx) value AND 1
                   in if bit' \<noteq> 0 then Symbol var else SNot (Symbol var))
                   (enumerate 0 vars_tuple)))"
  define e where "e = sympy_Or (map clause minterms)"
  have me: "minterms_to_expression minterms vars_tuple = e"
    using ne by (simp add: minterms_to_expression_def Let_def e_def clause_def n_def)
  have "(\<forall>b. clause v \<noteq> PyBool b) \<and> clause v \<noteq> PyNone" for v
    unfolding clause_def
    by (rule sympy_And_literals_not_python) (auto simp: Let_def)
  then have py: "(\<forall>b. e \<noteq> PyBool b) \<and> e \<noteq> PyNone"
    unfolding e_def by (intro sympy_Or_not_python) simp
  have val: "sympy_value (fold (\<lambda>(var, bit') m. m(var \<mapsto> (bit' \<noteq> 0)))
                 (zip vars_tuple (bits_of n (int i))) Map.empty) e = Some (int i \<in> set minterms)"
    if "i < 2 ^ n" for i
  proof -
    define subs where "subs = fold (\<lambda>(var, bit') m. m(var \<mapsto> (bit' \<noteq> 0)))
                 (zip vars_tuple (bits_of n (int i))) Map.empty"
    from that have i: "0 \<le> int i" "int i < 2 ^ length vars_tuple"
      unfolding n_def by (simp_all flip: of_nat_power add: of_nat_less_iff del: of_nat_power)
    have "sympy_value subs (clause m) = Some (int i = m)" if "m \<in> set minterms" for m
    proof -
      from that rng have "0 \<le> m" "m < 2 ^ length vars_tuple" by auto
      from clause_value_index [OF d i this] show ?thesis
        unfolding subs_def clause_def n_def .
    qed
    then have "map (sympy_value subs) (map clause minterms) = map Some (map (\<lambda>m. int i = m) minterms)"
      by simp
    from sympy_Or_value [OF this] have "sympy_value subs e = Some (\<exists>m \<in> set minterms. int i = m)"
      by (simp add: e_def)
    then show ?thesis unfolding subs_def by auto
  qed
  have ps: "enumerate 0 (product_bits n) = map (\<lambda>i. (i, bits_of n (int i))) [0 ..< 2 ^ n]"
    unfolding product_bits_bits_of by (rule enumerate_map_upt)
  have "\<forall>(idx, bits) \<in> set (enumerate 0 (product_bits n)).
     xreplace_bool e (fold (\<lambda>(var, bit') m. m(var \<mapsto> (bit' \<noteq> 0))) (zip vars_tuple bits) Map.empty) =
       Inr (int idx \<in> set minterms)"
    unfolding ps xreplace_bool_sympy [OF py]
    by (auto simp: val simp del: fun_upd_apply)
  from truth_loop_filter [OF this]
  have "truth_loop e vars_tuple (enumerate 0 (product_bits n)) =
      Inr (map (\<lambda>(idx, bits). int idx)
             (filter (\<lambda>(idx, bits). int idx \<in> set minterms) (enumerate 0 (product_bits n))))" .
  also have "map (\<lambda>(idx, bits). int idx)
             (filter (\<lambda>(idx, bits). int idx \<in> set minterms) (enumerate 0 (product_bits n))) =
      map int (filter (\<lambda>i. int i \<in> set minterms) [0 ..< 2 ^ n])"
    unfolding ps by (simp add: filter_map comp_def)
  also have "\<dots> = sorted_list_of_set (set minterms)"
    using rng unfolding n_def by (rule sorted_list_of_filtered_indices)
  finally show ?thesis
    unfolding me truth_minterms_def n_def .
qed

section \<open>The group of a product term and its minterms\<close>

lemma map_minterms_to_cells_image:
  "map_minterms_to_cells n mins ori = Inr cs \<Longrightarrow>
   cs = {rc. \<exists>idx \<in> set mins. idx_to_rc n idx ori = Inr rc}"
proof (induction mins arbitrary: cs)
  case Nil
  then show ?case by simp
next
  case (Cons m mins)
  from Cons.prems obtain rc cs' where rc: "idx_to_rc n m ori = Inr rc"
    and cs': "map_minterms_to_cells n mins ori = Inr cs'" and cs: "cs = insert rc cs'"
    by (auto split: sum.splits)
  from Cons.IH [OF cs'] have "cs' = {rc. \<exists>idx \<in> set mins. idx_to_rc n idx ori = Inr rc}" .
  with rc cs show ?case by auto
qed

lemma fixed_of_literal_list:
  assumes "distinct (map fst ls)"
  shows "fixed_of (map (\<lambda>(v, pos). if pos then Symbol v else SNot (Symbol v)) ls) m =
         Inr (\<lambda>v. case map_of ls v of None \<Rightarrow> m v | Some pos \<Rightarrow> Some (if pos then 1 else 0))"
  using assms
proof (induction ls arbitrary: m)
  case Nil
  then show ?case by simp
next
  case (Cons l ls)
  obtain s pos where l: "l = (s, pos)" by (cases l)
  from Cons.prems l have ns: "s \<notin> fst ` set ls" and d: "distinct (map fst ls)" by auto
  from ns have none: "map_of ls s = None" by (simp add: map_of_eq_None_iff)
  have step: "fixed_of (map (\<lambda>(v, pos). if pos then Symbol v else SNot (Symbol v)) (l # ls)) m =
      fixed_of (map (\<lambda>(v, pos). if pos then Symbol v else SNot (Symbol v)) ls)
        (m(s \<mapsto> (if pos then 1 else 0)))"
    unfolding l by (cases pos) simp_all
  have eq: "(\<lambda>v. case map_of ls v of None \<Rightarrow> (m(s \<mapsto> (if pos then 1 else 0))) v
                | Some pos \<Rightarrow> Some (if pos then 1 else 0)) =
        (\<lambda>v. case map_of (l # ls) v of None \<Rightarrow> m v | Some pos \<Rightarrow> Some (if pos then 1 else (0 :: int)))"
    unfolding l using none by (auto simp: fun_eq_iff split: option.splits)
  have ih: "fixed_of (map (\<lambda>(v, pos). if pos then Symbol v else SNot (Symbol v)) ls)
        (m(s \<mapsto> (if pos then 1 else 0))) =
      Inr (\<lambda>v. case map_of ls v of None \<Rightarrow> (m(s \<mapsto> (if pos then 1 else 0))) v
                | Some pos \<Rightarrow> Some (if pos then 1 else 0))"
    by (rule Cons.IH [OF d])
  show ?case by (simp only: step ih eq)
qed

lemma term_to_minterms_fixed:
  assumes "distinct vs"
    and "fixed_of (case trm of SAnd args \<Rightarrow> args | _ \<Rightarrow> [trm]) Map.empty = Inr fx"
  shows "term_to_minterms trm vs = Inr (pattern_minterms (map fx vs))"
proof -
  have "\<forall>bits \<in> set (product_bits (length (filter (\<lambda>v. fx v = None) vs))).
      length bits = length (filter (\<lambda>v. fx v = None) vs)"
    using length_product_bits by blast
  from minterms_of_bits_pattern [OF assms(1) this]
  have t: "term_to_minterms trm vs =
      Inr (map (\<lambda>bits. index_of_bits (fill_pattern (map fx vs) bits) 0)
             (product_bits (length (filter (\<lambda>v. fx v = None) vs))))"
    unfolding term_to_minterms_def Let_def assms(2) by simp
  have "length (filter (\<lambda>x. x = None) (map fx vs)) = length (filter (\<lambda>v. fx v = None) vs)"
    by (simp add: filter_map comp_def)
  then have "pattern_minterms (map fx vs) =
      map (\<lambda>bits. index_of_bits (fill_pattern (map fx vs) bits) 0)
             (product_bits (length (filter (\<lambda>v. fx v = None) vs)))"
    unfolding pattern_minterms_def by (simp only:)
  with t show ?thesis by simp
qed

lemma factors_of_sympy_And:
  assumes "ls \<noteq> []"
  shows "(case sympy_And (map (\<lambda>(v, pos). if pos then Symbol v else SNot (Symbol v)) ls) of
            SAnd args \<Rightarrow> args
          | _ \<Rightarrow> [sympy_And (map (\<lambda>(v, pos). if pos then Symbol v else SNot (Symbol v)) ls)]) =
         map (\<lambda>(v, pos). if pos then Symbol v else SNot (Symbol v)) ls"
proof -
  from assms obtain l rest where ls: "ls = l # rest" by (cases ls) auto
  obtain s pos where l: "l = (s, pos)" by (cases l)
  show ?thesis
  proof (cases rest)
    case Nil
    with ls l show ?thesis by (cases pos) (simp_all add: sympy_And_def)
  next
    case (Cons l' rest')
    with ls show ?thesis by (simp add: sympy_And_def)
  qed
qed

lemma term_to_minterms_literals:
  assumes "distinct vs" and "ls \<noteq> []" and "distinct (map fst ls)"
  shows "term_to_minterms (sympy_And (map (\<lambda>(v, pos). if pos then Symbol v else SNot (Symbol v)) ls)) vs =
         Inr (pattern_minterms
                (map (\<lambda>v. case map_of ls v of None \<Rightarrow> None | Some pos \<Rightarrow> Some (if pos then 1 else 0)) vs))"
proof -
  have "fixed_of (case sympy_And (map (\<lambda>(v, pos). if pos then Symbol v else SNot (Symbol v)) ls) of
            SAnd args \<Rightarrow> args
          | _ \<Rightarrow> [sympy_And (map (\<lambda>(v, pos). if pos then Symbol v else SNot (Symbol v)) ls)]) Map.empty =
        Inr (\<lambda>v. case map_of ls v of None \<Rightarrow> None | Some pos \<Rightarrow> Some (if pos then 1 else 0))"
    unfolding factors_of_sympy_And [OF assms(2)]
    using fixed_of_literal_list [OF assms(3), of Map.empty] by simp
  from term_to_minterms_fixed [OF assms(1) this] show ?thesis .
qed

lemma pattern_minterms_check_2:
  "\<forall>p \<in> set (List.n_lists 2 [None, Some 0, Some 1]).
     set (pattern_minterms p) =
     set (filter (\<lambda>idx. \<forall>k \<in> set [0 ..< 2].
                    (case p ! k of None \<Rightarrow> True | Some b \<Rightarrow> drop_bit (2 - 1 - k) idx AND 1 = b))
           [0 .. 2 ^ 2 - 1])"
  by code_simp

lemma pattern_minterms_check_3:
  "\<forall>p \<in> set (List.n_lists 3 [None, Some 0, Some 1]).
     set (pattern_minterms p) =
     set (filter (\<lambda>idx. \<forall>k \<in> set [0 ..< 3].
                    (case p ! k of None \<Rightarrow> True | Some b \<Rightarrow> drop_bit (3 - 1 - k) idx AND 1 = b))
           [0 .. 2 ^ 3 - 1])"
  by code_simp

lemma pattern_minterms_check_4:
  "\<forall>p \<in> set (List.n_lists 4 [None, Some 0, Some 1]).
     set (pattern_minterms p) =
     set (filter (\<lambda>idx. \<forall>k \<in> set [0 ..< 4].
                    (case p ! k of None \<Rightarrow> True | Some b \<Rightarrow> drop_bit (4 - 1 - k) idx AND 1 = b))
           [0 .. 2 ^ 4 - 1])"
  by code_simp

lemma pattern_entry_bit:
  fixes idx :: int
  assumes "b = 0 \<or> b = 1"
  shows "(drop_bit q idx AND 1 = b) = (bit idx q = (b = 1))"
  using assms by (auto simp: drop_bit_and_1)

lemma pattern_minterms_set:
  assumes dims: "map_dimensions (int (length p)) = Inr (nrows, ncols)"
    and entries: "set p \<subseteq> {None, Some 0, Some 1}"
  shows "set (pattern_minterms p) =
         {idx. 0 \<le> idx \<and> idx < 2 ^ length p \<and>
               (\<forall>k < length p. \<forall>b. p ! k = Some b \<longrightarrow> bit idx (length p - 1 - k) = (b = 1))}"
proof -
  define n where "n = length p"
  have mem: "p \<in> set (List.n_lists n [None, Some 0, Some 1])"
    using entries by (auto simp: set_n_lists n_def)
  have conv: "(\<forall>k \<in> set [0 ..< n].
                 (case p ! k of None \<Rightarrow> True | Some b \<Rightarrow> drop_bit (n - 1 - k) idx AND 1 = b)) =
              (\<forall>k < n. \<forall>b. p ! k = Some b \<longrightarrow> bit idx (n - 1 - k) = (b = 1))" for idx :: int
  proof -
    have "(case p ! k of None \<Rightarrow> True | Some b \<Rightarrow> drop_bit (n - 1 - k) idx AND 1 = b) =
          (\<forall>b. p ! k = Some b \<longrightarrow> bit idx (n - 1 - k) = (b = 1))" if "k < n" for k
    proof (cases "p ! k")
      case None
      then show ?thesis by simp
    next
      case (Some b)
      from that have "p ! k \<in> set p" by (simp add: n_def)
      with entries Some have "b = 0 \<or> b = 1" by auto
      from pattern_entry_bit [OF this] Some show ?thesis by simp
    qed
    then show ?thesis by auto
  qed
  have chk: "set (pattern_minterms p) =
     set (filter (\<lambda>idx. \<forall>k \<in> set [0 ..< n].
                    (case p ! k of None \<Rightarrow> True | Some b \<Rightarrow> drop_bit (n - 1 - k) idx AND 1 = b))
           [0 .. 2 ^ n - 1])"
  proof -
    from map_dimensions_cases [OF dims] consider "n = 2" | "n = 3" | "n = 4"
      unfolding n_def by auto
    then show ?thesis
    proof cases
      case 1
      from pattern_minterms_check_2 [rule_format, OF mem [unfolded 1]] show ?thesis
        unfolding 1 .
    next
      case 2
      from pattern_minterms_check_3 [rule_format, OF mem [unfolded 2]] show ?thesis
        unfolding 2 .
    next
      case 3
      from pattern_minterms_check_4 [rule_format, OF mem [unfolded 3]] show ?thesis
        unfolding 3 .
    qed
  qed
  show ?thesis unfolding chk conv n_def [symmetric] by auto
qed

lemma sympy_And_literals_shape:
  assumes "ls \<noteq> []"
  shows "(\<exists>s. sympy_And (map (\<lambda>(v, pos). if pos then Symbol v else SNot (Symbol v)) ls) = Symbol s) \<or>
         (\<exists>s. sympy_And (map (\<lambda>(v, pos). if pos then Symbol v else SNot (Symbol v)) ls) = SNot (Symbol s)) \<or>
         (\<exists>lits. sympy_And (map (\<lambda>(v, pos). if pos then Symbol v else SNot (Symbol v)) ls) = SAnd lits \<and>
            (\<forall>f \<in> set lits. (\<exists>s. f = Symbol s) \<or> (\<exists>s. f = SNot (Symbol s))))"
proof -
  from assms obtain l rest where ls: "ls = l # rest" by (cases ls) auto
  obtain s pos where l: "l = (s, pos)" by (cases l)
  show ?thesis
  proof (cases rest)
    case Nil
    with ls l show ?thesis by (cases pos) (simp_all add: sympy_And_def)
  next
    case (Cons l' rest')
    have "\<forall>f \<in> set (map (\<lambda>(v, pos). if pos then Symbol v else SNot (Symbol v)) ls).
        (\<exists>s. f = Symbol s) \<or> (\<exists>s. f = SNot (Symbol s))"
      by (auto split: if_splits)
    moreover from Cons ls
    have "sympy_And (map (\<lambda>(v, pos). if pos then Symbol v else SNot (Symbol v)) ls) =
        SAnd (map (\<lambda>(v, pos). if pos then Symbol v else SNot (Symbol v)) ls)"
      by (simp add: sympy_And_def)
    ultimately show ?thesis by blast
  qed
qed

text \<open>
  Claim C5. A product term over a tuple of 2, 3 or 4 distinct variables is SymPy's
  \<open>And\<close> of one or more literals with distinct variables. For either orientation
  \<open>expression_to_groups\<close> does not raise on it: it returns one group. The minterms of
  the term are exactly the indices of \<open>[0, 2^n - 1]\<close> whose bit for each variable of
  a literal, first variable most significant, is the value the literal fixes. The
  cell set of the group is the set of the cells \<open>idx_to_rc\<close> gives these minterms,
  and it is the wrap-around expansion \<open>rect_cells\<close> of the group's origin and spans.
\<close>

theorem expression_to_groups_product_term:
  assumes "distinct vars_tuple"
    and "map_dimensions (int (length vars_tuple)) = Inr (nrows, ncols)"
    and "lits \<noteq> []" and "distinct (map fst lits)"
  shows "\<exists>g mins.
     expression_to_groups (sympy_And (map (\<lambda>(v, pos). if pos then Symbol v else SNot (Symbol v)) lits))
         vars_tuple orient_cols_is_ab = Inr [g] \<and>
     term_to_minterms (sympy_And (map (\<lambda>(v, pos). if pos then Symbol v else SNot (Symbol v)) lits))
         vars_tuple = Inr mins \<and>
     set mins = {idx. 0 \<le> idx \<and> idx < 2 ^ length vars_tuple \<and>
                      (\<forall>k < length vars_tuple. \<forall>pos. (vars_tuple ! k, pos) \<in> set lits \<longrightarrow>
                         bit idx (length vars_tuple - 1 - k) = pos)} \<and>
     rect_cells (r0 g) (rows g) (c0 g) (cols g) nrows ncols = Inr (cells g) \<and>
     cells g = {rc. \<exists>idx \<in> set mins. idx_to_rc (int (length vars_tuple)) idx orient_cols_is_ab = Inr rc}"
proof -
  define trm where "trm = sympy_And (map (\<lambda>(v, pos). if pos then Symbol v else SNot (Symbol v)) lits)"
  define p where "p = map (\<lambda>v. case map_of lits v of None \<Rightarrow> None
                                  | Some pos \<Rightarrow> Some (if pos then 1 else (0 :: int))) vars_tuple"
  have shape: "(\<exists>s. trm = Symbol s) \<or> (\<exists>s. trm = SNot (Symbol s)) \<or>
         (\<exists>ls. trm = SAnd ls \<and> (\<forall>f \<in> set ls. (\<exists>s. f = Symbol s) \<or> (\<exists>s. f = SNot (Symbol s))))"
    unfolding trm_def by (rule sympy_And_literals_shape [OF assms(3)])
  from expression_to_groups_literals [OF assms(1,2) shape, of orient_cols_is_ab]
  obtain g mins where g: "expression_to_groups trm vars_tuple orient_cols_is_ab = Inr [g]"
    and mins: "term_to_minterms trm vars_tuple = Inr mins"
    and rc: "rect_cells (r0 g) (rows g) (c0 g) (cols g) nrows ncols = Inr (cells g)"
    and cs: "map_minterms_to_cells (int (length vars_tuple)) mins orient_cols_is_ab = Inr (cells g)"
    by blast
  from term_to_minterms_literals [OF assms(1,3,4)] mins
  have mp: "mins = pattern_minterms p" unfolding trm_def p_def by simp
  have lp: "length p = length vars_tuple" by (simp add: p_def)
  have ep: "set p \<subseteq> {None, Some 0, Some 1}"
    unfolding p_def by (auto split: option.splits if_splits)
  from assms(2) have "map_dimensions (int (length p)) = Inr (nrows, ncols)" by (simp add: lp)
  from pattern_minterms_set [OF this ep]
  have sp: "set mins = {idx. 0 \<le> idx \<and> idx < 2 ^ length vars_tuple \<and>
               (\<forall>k < length vars_tuple. \<forall>b. p ! k = Some b \<longrightarrow>
                  bit idx (length vars_tuple - 1 - k) = (b = 1))}"
    unfolding mp lp .
  have entry: "(\<forall>b. p ! k = Some b \<longrightarrow> Q = (b = 1)) =
               (\<forall>pos. (vars_tuple ! k, pos) \<in> set lits \<longrightarrow> Q = pos)"
    if "k < length vars_tuple" for k Q
  proof -
    have m: "(map_of lits (vars_tuple ! k) = Some pos) = ((vars_tuple ! k, pos) \<in> set lits)" for pos
      using assms(4) by (rule map_of_eq_Some_iff)
    from that have "p ! k = (case map_of lits (vars_tuple ! k) of None \<Rightarrow> None
                              | Some pos \<Rightarrow> Some (if pos then 1 else 0))"
      by (simp add: p_def)
    then show ?thesis
      unfolding m [symmetric] by (cases "map_of lits (vars_tuple ! k)") auto
  qed
  have sm: "set mins = {idx. 0 \<le> idx \<and> idx < 2 ^ length vars_tuple \<and>
                      (\<forall>k < length vars_tuple. \<forall>pos. (vars_tuple ! k, pos) \<in> set lits \<longrightarrow>
                         bit idx (length vars_tuple - 1 - k) = pos)}"
    unfolding sp using entry by auto
  from map_minterms_to_cells_image [OF cs]
  have cg: "cells g = {rc. \<exists>idx \<in> set mins.
      idx_to_rc (int (length vars_tuple)) idx orient_cols_is_ab = Inr rc}" .
  from g mins sm rc cg show ?thesis unfolding trm_def by blast
qed

theorem expression_to_groups_product_term_witness:
  "distinct [''A'', ''B'', ''C'', ''D''] \<and>
   map_dimensions (int (length [''A'', ''B'', ''C'', ''D''])) = Inr (4, 4) \<and>
   [(''B'', False), (''D'', True)] \<noteq> [] \<and>
   distinct (map fst [(''B'', False), (''D'', True)]) \<and>
   (\<exists>g mins.
     expression_to_groups (sympy_And (map (\<lambda>(v, pos). if pos then Symbol v else SNot (Symbol v))
          [(''B'', False), (''D'', True)]))
         [''A'', ''B'', ''C'', ''D''] True = Inr [g] \<and>
     term_to_minterms (sympy_And (map (\<lambda>(v, pos). if pos then Symbol v else SNot (Symbol v))
          [(''B'', False), (''D'', True)]))
         [''A'', ''B'', ''C'', ''D''] = Inr mins \<and>
     set mins = {idx. 0 \<le> idx \<and> idx < 2 ^ length [''A'', ''B'', ''C'', ''D''] \<and>
                      (\<forall>k < length [''A'', ''B'', ''C'', ''D'']. \<forall>pos.
                         ([''A'', ''B'', ''C'', ''D''] ! k, pos) \<in> set [(''B'', False), (''D'', True)] \<longrightarrow>
                         bit idx (length [''A'', ''B'', ''C'', ''D''] - 1 - k) = pos)} \<and>
     rect_cells (r0 g) (rows g) (c0 g) (cols g) 4 4 = Inr (cells g) \<and>
     cells g = {rc. \<exists>idx \<in> set mins.
                  idx_to_rc (int (length [''A'', ''B'', ''C'', ''D''])) idx True = Inr rc})"
proof -
  have h1: "distinct [''A'', ''B'', ''C'', ''D'']" by simp
  have h2: "map_dimensions (int (length [''A'', ''B'', ''C'', ''D''])) = Inr (4, 4)"
    by (simp add: map_dimensions_def)
  have h3: "[(''B'', False), (''D'', True)] \<noteq> []" by simp
  have h4: "distinct (map fst [(''B'', False), (''D'', True)])" by simp
  show ?thesis
    by (rule conjI [OF h1 conjI [OF h2 conjI [OF h3 conjI [OF h4 expression_to_groups_product_term [OF h1 h2 h3 h4]]]]])
qed

text \<open>The term \<open>B'D\<close> over \<open>A, B, C, D\<close>, evaluated.\<close>

lemma expression_to_groups_example:
  "expression_to_groups (sympy_And (map (\<lambda>(v, pos). if pos then Symbol v else SNot (Symbol v))
          [(''B'', False), (''D'', True)])) [''A'', ''B'', ''C'', ''D''] True =
     Inr [\<lparr>r0 = 1, rows = 2, c0 = 3, cols = 2, cells = {(1, 0), (2, 0), (1, 3), (2, 3)}\<rparr>] \<and>
   term_to_minterms (sympy_And (map (\<lambda>(v, pos). if pos then Symbol v else SNot (Symbol v))
          [(''B'', False), (''D'', True)])) [''A'', ''B'', ''C'', ''D''] = Inr [1, 3, 9, 11]"
  by code_simp

end
